theory Spec2Isabelle
  imports Complex_Main
begin

section \<open>Strings\<close>

text \<open>
  Python strings are sequences of code points. A \<^typ>\<open>char\<close> stands for one code point
  below 256 (Latin-1); titles and keywords with other code points are outside the model.
  \<open>str.lower()\<close> on that range maps \<open>A\<close>..\<open>Z\<close> and the accented capitals
  192..222 (except the multiplication sign 215) to the code point 32 above, and leaves every
  other code point unchanged.
\<close>

definition lower_char :: "char \<Rightarrow> char" where
  "lower_char c =
     (let n = (of_char c :: nat)
      in if (65 \<le> n \<and> n \<le> 90) \<or> (192 \<le> n \<and> n \<le> 222 \<and> n \<noteq> 215)
         then char_of (n + 32) else c)"

definition lower :: "string \<Rightarrow> string" where
  "lower s = map lower_char s"

text \<open>
  \<open>str.upper()\<close> on the same range: \<open>a\<close>..\<open>z\<close> and the accented small letters
  224..254 (except the division sign 247) go to the code point 32 below. Three code points
  (181, 223, 255) have an upper-case form that is outside the range or has two letters;
  they are left unchanged here, and strings that contain them are outside the model.
\<close>

definition upper_char :: "char \<Rightarrow> char" where
  "upper_char c =
     (let n = (of_char c :: nat)
      in if (97 \<le> n \<and> n \<le> 122) \<or> (224 \<le> n \<and> n \<le> 254 \<and> n \<noteq> 247)
         then char_of (n - 32) else c)"

definition upper :: "string \<Rightarrow> string" where
  "upper s = map upper_char s"

text \<open>\<open>s.startswith(p)\<close> and the substring test \<open>kw in s\<close>.\<close>

fun startswith :: "string \<Rightarrow> string \<Rightarrow> bool" where
  "startswith s [] = True"
| "startswith [] (p # ps) = False"
| "startswith (c # cs) (p # ps) = (c = p \<and> startswith cs ps)"

fun str_in :: "string \<Rightarrow> string \<Rightarrow> bool" where
  "str_in kw [] = (kw = [])"
| "str_in kw (c # cs) = (startswith (c # cs) kw \<or> str_in kw cs)"

text \<open>
  String comparison \<open>a <= b\<close>: lexicographic on code points, a proper prefix is smaller.
\<close>

fun str_le :: "string \<Rightarrow> string \<Rightarrow> bool" where
  "str_le [] b = True"
| "str_le (x # xs) [] = False"
| "str_le (x # xs) (y # ys) =
     ((of_char x :: nat) < of_char y \<or> (x = y \<and> str_le xs ys))"

section \<open>Prices\<close>

text \<open>
  Prices are Python floats in the source. They are modelled as exact rationals: the
  arithmetic \<open>current_price * (1 + increase_pct / 100)\<close> is carried out without the
  binary rounding of each floating-point operation. \<open>round(x, 2)\<close> rounds the value to the
  nearest multiple of 1/100, a tie going to the even hundredth, as Python rounds a float
  whose exact value is a tie. Every concrete price used below (200, 250, 312.5, 100, 125),
  every confidence of the examples (0.75, 0.25, 0.5) and every intermediate result there is
  a binary fraction, on which the floating-point computation is exact.
\<close>

definition py_round2 :: "rat \<Rightarrow> rat" where
  "py_round2 x =
     (let y = x * 100;
          f = \<lfloor>y\<rfloor>;
          d = y - of_int f
      in of_int (if d < 1 / 2 then f
                 else if 1 / 2 < d then f + 1
                 else if even f then f else f + 1) / 100)"

section \<open>Rules, listings and the update plan (ebay_auto_pricing.py)\<close>

text \<open>
  A rule is the dictionary built by \<open>get_active_pricing_windows\<close>; a listing is the
  dictionary built by \<open>_parse_listings_response\<close>; an update is the dictionary appended
  to \<open>updates\<close> in \<open>run_pricing_update\<close>.
\<close>

record rule =
  item :: string
  rule_keywords :: "string list"
  event :: string
  tier :: string
  increase_percent :: int
  start_date :: string
  end_date :: string

record listing =
  item_id :: string
  title :: string
  current_price :: rat
  quantity :: int

record update =
  u_item_id :: string
  u_title :: string
  u_current_price :: rat
  u_new_price :: rat
  u_tier :: string
  u_increase_pct :: int
  u_event :: string

text \<open>
  \<open>match_listing_to_rule\<close>: the outer loop over the rules, the inner loop over one
  rule's keywords; the first keyword found in the lower-cased title returns its rule.
\<close>

fun any_keyword_in :: "string list \<Rightarrow> string \<Rightarrow> bool" where
  "any_keyword_in [] title_lower = False"
| "any_keyword_in (kw # kws) title_lower =
     (if str_in (lower kw) title_lower then True else any_keyword_in kws title_lower)"

fun match_rules :: "string \<Rightarrow> rule list \<Rightarrow> rule option" where
  "match_rules title_lower [] = None"
| "match_rules title_lower (r # rs) =
     (if any_keyword_in (rule_keywords r) title_lower then Some r
      else match_rules title_lower rs)"

definition match_listing_to_rule :: "string \<Rightarrow> rule list \<Rightarrow> rule option" where
  "match_listing_to_rule listing_title rules = match_rules (lower listing_title) rules"

text \<open>
  The planning loop of \<open>run_pricing_update\<close> (\<open>for listing in listings\<close>), with its two
  accumulators \<open>updates\<close> and \<open>skipped\<close>. The specification calls the loop
  \<open>build_plan\<close>.
\<close>

definition new_price_of :: "rat \<Rightarrow> int \<Rightarrow> rat" where
  "new_price_of current increase_pct = py_round2 (current * (1 + of_int increase_pct / 100))"

definition make_update :: "listing \<Rightarrow> rule \<Rightarrow> update" where
  "make_update l r =
     \<lparr> u_item_id = item_id l,
       u_title = take 50 (title l),
       u_current_price = current_price l,
       u_new_price = new_price_of (current_price l) (increase_percent r),
       u_tier = tier r,
       u_increase_pct = increase_percent r,
       u_event = event r \<rparr>"

fun plan_loop ::
  "rule list \<Rightarrow> listing list \<Rightarrow> update list \<times> (string \<times> string) list
     \<Rightarrow> update list \<times> (string \<times> string) list" where
  "plan_loop active_rules [] (updates, skipped) = (updates, skipped)"
| "plan_loop active_rules (l # ls) (updates, skipped) =
     (case match_listing_to_rule (title l) active_rules of
        Some r \<Rightarrow>
          (if current_price l < new_price_of (current_price l) (increase_percent r)
           then plan_loop active_rules ls (updates @ [make_update l r], skipped)
           else plan_loop active_rules ls (updates, skipped))
      | None \<Rightarrow>
          plan_loop active_rules ls (updates, skipped @ [(item_id l, take 50 (title l))]))"

definition build_plan :: "listing list \<Rightarrow> rule list \<Rightarrow> update list" where
  "build_plan listings active_rules = fst (plan_loop active_rules listings ([], []))"

text \<open>What the loop contributes for one listing.\<close>

definition plan_entry :: "rule list \<Rightarrow> listing \<Rightarrow> update list" where
  "plan_entry active_rules l =
     (case match_listing_to_rule (title l) active_rules of
        None \<Rightarrow> []
      | Some r \<Rightarrow>
          (if current_price l < new_price_of (current_price l) (increase_percent r)
           then [make_update l r] else []))"

section \<open>Tier consensus (pricing_engine.py)\<close>

datatype py_error =
  AttributeError | TypeError | ValueError | KeyError | OverflowError
  | FileNotFoundError | JSONDecodeError | RequestError

text \<open>
  An oracle answers with a JSON object; \<open>jvalue\<close> is the value of one of its fields. A
  \<open>response\<close> is the dictionary \<open>{"source": ..., **json.loads(content)}\<close>: a field
  that the object lacks is \<open>None\<close>. The reasoning, where present, is taken to be a string.
\<close>

datatype jvalue = JNull | JBool bool | JNum rat | JStr string | JOther

record response =
  r_source :: string
  r_tier :: "jvalue option"
  r_confidence :: "jvalue option"
  r_reasoning :: "string option"

text \<open>
  What \<open>future.result()\<close> gives for one oracle call: it raises, or it returns the
  query function's value (\<open>None\<close> or a response). \<open>get_ai_consensus\<close> is modelled
  on the list of these outcomes in completion order (the order of \<open>as_completed\<close>).
\<close>

datatype outcome = Raised | Returned "response option"

fun collect_results :: "outcome list \<Rightarrow> response list" where
  "collect_results [] = []"
| "collect_results (Raised # os) = collect_results os"
| "collect_results (Returned None # os) = collect_results os"
| "collect_results (Returned (Some r) # os) =
     (if r_tier r \<noteq> None then r # collect_results os else collect_results os)"

text \<open>
  A Python dictionary with string keys, in insertion order: \<open>max\<close> over the dictionary
  visits the keys in that order. Assigning to a key that exists keeps its position.
\<close>

type_synonym 'v pydict = "(string \<times> 'v) list"

fun dict_get :: "'v pydict \<Rightarrow> string \<Rightarrow> 'v \<Rightarrow> 'v" where
  "dict_get [] k dflt = dflt"
| "dict_get ((k', v) # d) k dflt = (if k' = k then v else dict_get d k dflt)"

fun dict_set :: "'v pydict \<Rightarrow> string \<Rightarrow> 'v \<Rightarrow> 'v pydict" where
  "dict_set [] k v = [(k, v)]"
| "dict_set ((k', v') # d) k v = (if k' = k then (k, v) # d else (k', v') # dict_set d k v)"

text \<open>\<open>r.get("tier", "MEDIUM").upper()\<close>: only a string has \<open>upper\<close>.\<close>

definition tier_of :: "response \<Rightarrow> py_error + string" where
  "tier_of r =
     (case r_tier r of
        None \<Rightarrow> Inr (upper ''MEDIUM'')
      | Some (JStr s) \<Rightarrow> Inr (upper s)
      | Some _ \<Rightarrow> Inl AttributeError)"

definition conf_of :: "response \<Rightarrow> jvalue" where
  "conf_of r = (case r_confidence r of None \<Rightarrow> JNum (7 / 10) | Some v \<Rightarrow> v)"

text \<open>The vote-counting loop \<open>for r in results\<close> over its three accumulators.\<close>

fun count_votes ::
  "response list \<Rightarrow> nat pydict \<times> jvalue list pydict \<times> string list
     \<Rightarrow> py_error + (nat pydict \<times> jvalue list pydict \<times> string list)" where
  "count_votes [] acc = Inr acc"
| "count_votes (r # rs) (tier_votes, tier_confidence, reasonings) =
     (case tier_of r of
        Inl e \<Rightarrow> Inl e
      | Inr t \<Rightarrow>
          count_votes rs
            (dict_set tier_votes t (dict_get tier_votes t 0 + 1),
             dict_set tier_confidence t (dict_get tier_confidence t [] @ [conf_of r]),
             (case r_reasoning r of
                None \<Rightarrow> reasonings
              | Some s \<Rightarrow>
                  if s = [] then reasonings
                  else reasonings @ [r_source r @ '': '' @ s])))"

text \<open>
  \<open>max(tier_votes, key=tier_votes.get)\<close>: one pass over the keys in insertion order; the
  candidate is replaced only by a key with a strictly greater count.
\<close>

fun max_scan :: "nat pydict \<Rightarrow> string \<Rightarrow> nat \<Rightarrow> string" where
  "max_scan [] best best_val = best"
| "max_scan ((k, v) # d) best best_val =
     (if best_val < v then max_scan d k v else max_scan d best best_val)"

definition max_key :: "nat pydict \<Rightarrow> py_error + string" where
  "max_key d = (case d of [] \<Rightarrow> Inl ValueError | (k, v) # d' \<Rightarrow> Inr (max_scan d' k v))"

text \<open>\<open>sum(xs)\<close> over JSON values: numbers and booleans add up, anything else raises.\<close>

fun py_sum :: "jvalue list \<Rightarrow> rat \<Rightarrow> py_error + rat" where
  "py_sum [] acc = Inr acc"
| "py_sum (JNum q # xs) acc = py_sum xs (acc + q)"
| "py_sum (JBool b # xs) acc = py_sum xs (acc + (if b then 1 else 0))"
| "py_sum (x # xs) acc = Inl TypeError"

record consensus =
  c_tier :: string
  c_confidence :: rat
  c_consensus :: bool
  c_votes :: "nat pydict"
  c_reasonings :: "string list option"
  c_ai_count :: "nat option"

definition get_ai_consensus :: "outcome list \<Rightarrow> py_error + consensus" where
  "get_ai_consensus outcomes =
     (let results = collect_results outcomes
      in if results = []
         then Inr \<lparr> c_tier = ''MEDIUM'', c_confidence = 1 / 2, c_consensus = False,
                    c_votes = [], c_reasonings = None, c_ai_count = None \<rparr>
         else
           (case count_votes results ([], [], []) of
              Inl e \<Rightarrow> Inl e
            | Inr (tier_votes, tier_confidence, reasonings) \<Rightarrow>
                (case max_key tier_votes of
                   Inl e \<Rightarrow> Inl e
                 | Inr winner \<Rightarrow>
                     (case py_sum (dict_get tier_confidence winner []) 0 of
                        Inl e \<Rightarrow> Inl e
                      | Inr conf_sum \<Rightarrow>
                          Inr \<lparr> c_tier = winner,
                                c_confidence =
                                  py_round2
                                    (conf_sum / of_nat (length (dict_get tier_confidence winner []))),
                                c_consensus = (2 \<le> dict_get tier_votes winner 0),
                                c_votes = tier_votes,
                                c_reasonings = Some reasonings,
                                c_ai_count = Some (length results) \<rparr>))))"

section \<open>Calendar dates (Python's datetime)\<close>

text \<open>
  The part of Python's \<open>datetime\<close> module that \<open>calculate_pricing_window\<close> uses,
  following the module's own algorithms: the proleptic Gregorian ordinal of a date
  (\<open>_ymd2ord\<close>), its inverse (\<open>_ord2ymd\<close>), \<open>replace(year=...)\<close>, the addition of a
  whole number of days, the comparison of two datetimes and \<open>strftime("%Y-%m-%d")\<close>.
  The time of day is one number, the microseconds since midnight.
\<close>

record datetime =
  dt_year :: int
  dt_month :: int
  dt_day :: int
  dt_tod :: nat

definition is_leap :: "int \<Rightarrow> bool" where
  "is_leap y = (y mod 4 = 0 \<and> (y mod 100 \<noteq> 0 \<or> y mod 400 = 0))"

definition days_before_year :: "int \<Rightarrow> int" where
  "days_before_year year = (let y = year - 1 in y * 365 + y div 4 - y div 100 + y div 400)"

definition DAYS_IN_MONTH :: "int list" where
  "DAYS_IN_MONTH = [-1, 31, 28, 31, 30, 31, 30, 31, 31, 30, 31, 30, 31]"

definition DAYS_BEFORE_MONTH :: "int list" where
  "DAYS_BEFORE_MONTH = [-1, 0, 31, 59, 90, 120, 151, 181, 212, 243, 273, 304, 334]"

definition days_in_month :: "int \<Rightarrow> int \<Rightarrow> int" where
  "days_in_month year month =
     (if month = 2 \<and> is_leap year then 29 else DAYS_IN_MONTH ! nat month)"

definition days_before_month :: "int \<Rightarrow> int \<Rightarrow> int" where
  "days_before_month year month =
     DAYS_BEFORE_MONTH ! nat month + (if 2 < month \<and> is_leap year then 1 else 0)"

definition ymd2ord :: "int \<Rightarrow> int \<Rightarrow> int \<Rightarrow> int" where
  "ymd2ord year month day = days_before_year year + days_before_month year month + day"

text \<open>
  The last part of \<open>_ord2ymd\<close>: month and day from the zero-based day \<open>n\<close> of the year
  and the leap flag. The month is estimated and corrected when the estimate is too large.
\<close>

definition ord2md :: "bool \<Rightarrow> int \<Rightarrow> int \<times> int" where
  "ord2md leapyear n =
     (let month = (n + 50) div 32;
          preceding = DAYS_BEFORE_MONTH ! nat month
                        + (if 2 < month \<and> leapyear then 1 else 0)
      in if n < preceding
         then (let month' = month - 1;
                   preceding' = preceding
                     - (DAYS_IN_MONTH ! nat month'
                          + (if month' = 2 \<and> leapyear then 1 else 0))
               in (month', n - preceding' + 1))
         else (month, n - preceding + 1))"

definition ord2ymd :: "int \<Rightarrow> int \<times> int \<times> int" where
  "ord2ymd n0 =
     (let n = n0 - 1;
          n400 = n div 146097; n = n mod 146097;
          n100 = n div 36524; n = n mod 36524;
          n4 = n div 1461; n = n mod 1461;
          n1 = n div 365; n = n mod 365;
          year = n400 * 400 + 1 + n100 * 100 + n4 * 4 + n1
      in if n1 = 4 \<or> n100 = 4 then (year - 1, 12, 31)
         else
           (let leapyear = (n1 = 3 \<and> (n4 \<noteq> 24 \<or> n100 = 3))
            in case ord2md leapyear n of (month, day) \<Rightarrow> (year, month, day)))"

definition toordinal :: "datetime \<Rightarrow> int" where
  "toordinal d = ymd2ord (dt_year d) (dt_month d) (dt_day d)"

text \<open>A date that the \<open>datetime\<close> constructor accepts.\<close>

definition valid_date :: "int \<Rightarrow> int \<Rightarrow> int \<Rightarrow> bool" where
  "valid_date y m d =
     (1 \<le> y \<and> y \<le> 9999 \<and> 1 \<le> m \<and> m \<le> 12 \<and> 1 \<le> d \<and> d \<le> days_in_month y m)"

text \<open>\<open>d.replace(year=y)\<close>: \<open>None\<close> stands for the \<open>ValueError\<close> of an invalid date.\<close>

definition replace_year :: "datetime \<Rightarrow> int \<Rightarrow> datetime option" where
  "replace_year d y =
     (if valid_date y (dt_month d) (dt_day d) then Some (d\<lparr>dt_year := y\<rparr>) else None)"

text \<open>
  \<open>d + timedelta(days=k)\<close>: through the ordinal, \<open>OverflowError\<close> outside
  0001-01-01 .. 9999-12-31 (ordinals 1 .. 3652059); the time of day is kept.
\<close>

definition add_days :: "datetime \<Rightarrow> int \<Rightarrow> py_error + datetime" where
  "add_days d k =
     (let n = toordinal d + k
      in if 0 < n \<and> n \<le> 3652059
         then (case ord2ymd n of
                 (y, m, dd) \<Rightarrow> Inr \<lparr> dt_year = y, dt_month = m, dt_day = dd, dt_tod = dt_tod d \<rparr>)
         else Inl OverflowError)"

text \<open>\<open>a < b\<close> and \<open>a <= b\<close> on datetimes: the order of the tuples of their fields.\<close>

definition dt_less :: "datetime \<Rightarrow> datetime \<Rightarrow> bool" where
  "dt_less a b =
     (dt_year a < dt_year b \<or> (dt_year a = dt_year b \<and>
       (dt_month a < dt_month b \<or> (dt_month a = dt_month b \<and>
         (dt_day a < dt_day b \<or> (dt_day a = dt_day b \<and> dt_tod a < dt_tod b))))))"

definition dt_le :: "datetime \<Rightarrow> datetime \<Rightarrow> bool" where
  "dt_le a b = (dt_less a b \<or> a = b)"

text \<open>
  \<open>strftime("%Y-%m-%d")\<close>, the year written with four digits (every platform does so
  from the year 1000 on).
\<close>

definition digit_char :: "nat \<Rightarrow> char" where
  "digit_char n = char_of (48 + n mod 10)"

definition strftime_Ymd :: "datetime \<Rightarrow> string" where
  "strftime_Ymd d =
     (let y = nat (dt_year d); m = nat (dt_month d); dd = nat (dt_day d)
      in [digit_char (y div 1000), digit_char (y div 100), digit_char (y div 10), digit_char y,
          CHR ''-'', digit_char (m div 10), digit_char m,
          CHR ''-'', digit_char (dd div 10), digit_char dd])"

subsection \<open>\<open>strptime\<close> with the formats \<open>"%B %d"\<close> and \<open>"%b %d"\<close>\<close>

text \<open>
  The regular expression that \<open>strptime\<close> builds for these formats is: a month name
  (any case), one or more whitespace characters, and a day matched by
  \<open>3[0-1]|[1-2]\d|0[1-9]|[1-9]| [1-9]\<close>; the whole string must be consumed and the day
  must exist in that month of the year 1900, else \<open>ValueError\<close>. No month name is a prefix
  of another one of its table, so the order of the alternatives does not matter; the
  whitespace is matched greedily, after which the last alternative of the day can add
  nothing to \<open>[1-9]\<close>.
\<close>

definition month_names_B :: "string list" where
  "month_names_B =
     [''january'', ''february'', ''march'', ''april'', ''may'', ''june'', ''july'',
      ''august'', ''september'', ''october'', ''november'', ''december'']"

definition month_names_b :: "string list" where
  "month_names_b =
     [''jan'', ''feb'', ''mar'', ''apr'', ''may'', ''jun'', ''jul'',
      ''aug'', ''sep'', ''oct'', ''nov'', ''dec'']"

definition is_space :: "char \<Rightarrow> bool" where
  "is_space c =
     (let n = (of_char c :: nat)
      in (9 \<le> n \<and> n \<le> 13) \<or> (28 \<le> n \<and> n \<le> 32) \<or> n = 133 \<or> n = 160)"

definition is_digit :: "char \<Rightarrow> bool" where
  "is_digit c = (let n = (of_char c :: nat) in 48 \<le> n \<and> n \<le> 57)"

definition digit_val :: "char \<Rightarrow> nat" where
  "digit_val c = of_char c - 48"

fun match_month :: "string list \<Rightarrow> int \<Rightarrow> string \<Rightarrow> (int \<times> string) option" where
  "match_month [] i s = None"
| "match_month (n # ns) i s =
     (if startswith s n then Some (i, drop (length n) s) else match_month ns (i + 1) s)"

fun match_day :: "string \<Rightarrow> (nat \<times> string) option" where
  "match_day [] = None"
| "match_day [a] = (if is_digit a \<and> a \<noteq> CHR ''0'' then Some (digit_val a, []) else None)"
| "match_day (a # b # rest) =
     (if a = CHR ''3'' \<and> (b = CHR ''0'' \<or> b = CHR ''1'') then Some (30 + digit_val b, rest)
      else if (a = CHR ''1'' \<or> a = CHR ''2'') \<and> is_digit b
        then Some (10 * digit_val a + digit_val b, rest)
      else if a = CHR ''0'' \<and> is_digit b \<and> b \<noteq> CHR ''0'' then Some (digit_val b, rest)
      else if is_digit a \<and> a \<noteq> CHR ''0'' then Some (digit_val a, b # rest)
      else None)"

definition strptime :: "string list \<Rightarrow> string \<Rightarrow> datetime option" where
  "strptime names s =
     (case match_month names 1 (lower s) of
        None \<Rightarrow> None
      | Some (month, rest) \<Rightarrow>
          (case rest of
             [] \<Rightarrow> None
           | c # cs \<Rightarrow>
               if \<not> is_space c then None
               else
                 (case match_day (dropWhile is_space cs) of
                    None \<Rightarrow> None
                  | Some (day, rest') \<Rightarrow>
                      if rest' \<noteq> [] then None
                      else if int day \<le> days_in_month 1900 month
                        then Some \<lparr> dt_year = 1900, dt_month = month, dt_day = int day,
                                    dt_tod = 0 \<rparr>
                      else None)))"

section \<open>The pricing window (pricing_engine.py)\<close>

record tier_policy =
  increase :: int
  window_days :: int
  description :: string

definition PRICING_TIERS :: "string \<Rightarrow> tier_policy option" where
  "PRICING_TIERS =
     map_of
       [(''MINOR'', \<lparr> increase = 5, window_days = 7,
            description = ''Related awareness days, minor connections'' \<rparr>),
        (''MEDIUM'', \<lparr> increase = 15, window_days = 10,
            description = ''Birthdays, album anniversaries, related events'' \<rparr>),
        (''MAJOR'', \<lparr> increase = 25, window_days = 14,
            description = ''Death anniversaries, significant milestones'' \<rparr>),
        (''PEAK'', \<lparr> increase = 35, window_days = 14,
            description = ''Once-in-lifetime events, major auctions, 50th anniversaries'' \<rparr>)]"

record window =
  w_event_date :: string
  w_price_start :: string
  w_price_end :: string
  w_window_days :: int

text \<open>
  One \<open>try\<close> block of \<open>calculate_pricing_window\<close>: parse with the given month names,
  move to the current year and, when that lies before \<open>now\<close>, to the next year. \<open>None\<close>
  is any exception, which the bare \<open>except\<close> catches. \<open>now\<close> is the value of
  \<open>datetime.now()\<close>, read once.
\<close>

definition parse_event_date :: "datetime \<Rightarrow> string list \<Rightarrow> string \<Rightarrow> datetime option" where
  "parse_event_date now names event_date_str =
     (case strptime names event_date_str of
        None \<Rightarrow> None
      | Some e0 \<Rightarrow>
          (case replace_year e0 (dt_year now) of
             None \<Rightarrow> None
           | Some e1 \<Rightarrow>
               if dt_less e1 now then replace_year e1 (dt_year now + 1) else Some e1))"

definition event_date_of :: "datetime \<Rightarrow> string \<Rightarrow> datetime option" where
  "event_date_of now event_date_str =
     (case parse_event_date now month_names_B event_date_str of
        Some e \<Rightarrow> Some e
      | None \<Rightarrow> parse_event_date now month_names_b event_date_str)"

text \<open>
  The local variables \<open>event_date\<close>, \<open>start_date\<close>, \<open>end_date\<close> and \<open>window_days\<close>
  of \<open>calculate_pricing_window\<close> (the two middle ones under the names of their keys in
  the result, \<open>price_start\<close> and \<open>price_end\<close>); \<open>Inr None\<close> is its \<open>return None\<close>.
\<close>

definition window_dates ::
  "datetime \<Rightarrow> string \<Rightarrow> string
     \<Rightarrow> py_error + (datetime \<times> datetime \<times> datetime \<times> int) option" where
  "window_dates now event_date_str t =
     (case event_date_of now event_date_str of
        None \<Rightarrow> Inr None
      | Some event_date \<Rightarrow>
          (case PRICING_TIERS t of
             None \<Rightarrow> Inl KeyError
           | Some pol \<Rightarrow>
               (case add_days event_date (- window_days pol) of
                  Inl e \<Rightarrow> Inl e
                | Inr price_start \<Rightarrow>
                    (case add_days event_date 2 of
                       Inl e \<Rightarrow> Inl e
                     | Inr price_end \<Rightarrow>
                         Inr (Some (event_date, price_start, price_end, window_days pol))))))"

definition calculate_pricing_window ::
  "datetime \<Rightarrow> string \<Rightarrow> string \<Rightarrow> py_error + window option" where
  "calculate_pricing_window now event_date_str t =
     (case window_dates now event_date_str t of
        Inl e \<Rightarrow> Inl e
      | Inr None \<Rightarrow> Inr None
      | Inr (Some (event_date, price_start, price_end, wd)) \<Rightarrow>
          Inr (Some \<lparr> w_event_date = strftime_Ymd event_date,
                       w_price_start = strftime_Ymd price_start,
                       w_price_end = strftime_Ymd price_end,
                       w_window_days = wd \<rparr>))"

section \<open>Loading the active rules (ebay_auto_pricing.py)\<close>

text \<open>\<open>s.split(',')\<close>, \<open>s.strip()\<close> and \<open>int(s)\<close> on a string.\<close>

fun split_on :: "char \<Rightarrow> string \<Rightarrow> string list" where
  "split_on sep [] = [[]]"
| "split_on sep (c # cs) =
     (if c = sep then [] # split_on sep cs
      else (case split_on sep cs of
              [] \<Rightarrow> [[c]]
            | w # ws \<Rightarrow> (c # w) # ws))"

definition strip :: "string \<Rightarrow> string" where
  "strip s = rev (dropWhile is_space (rev (dropWhile is_space s)))"

text \<open>
  The digits of a decimal literal, single underscores allowed between digits;
  \<open>acc\<close> is the value read so far, \<open>after_digit\<close> tells whether the previous character
  was a digit.
\<close>

fun parse_digits :: "string \<Rightarrow> nat \<Rightarrow> bool \<Rightarrow> nat option" where
  "parse_digits [] acc after_digit = (if after_digit then Some acc else None)"
| "parse_digits (c # cs) acc after_digit =
     (if is_digit c then parse_digits cs (10 * acc + digit_val c) True
      else if c = CHR ''_'' \<and> after_digit then parse_digits cs acc False
      else None)"

definition py_int :: "string \<Rightarrow> int option" where
  "py_int s =
     (case strip s of
        [] \<Rightarrow> None
      | c # cs \<Rightarrow>
          if c = CHR ''-'' then map_option (\<lambda>n. - int n) (parse_digits cs 0 False)
          else if c = CHR ''+'' then map_option int (parse_digits cs 0 False)
          else map_option int (parse_digits (c # cs) 0 False))"



text \<open>\<open>int(row[4]) if row[4] else 10\<close>, any exception giving 10.\<close>

definition increase_of :: "string \<Rightarrow> int" where
  "increase_of cell = (if cell = [] then 10 else (case py_int cell of Some n \<Rightarrow> n | None \<Rightarrow> 10))"

text \<open>
  The two loops over the rows. Both skip a row shorter than 7 cells, one whose first or
  second cell is empty and one whose eighth cell is not \<open>Y\<close>; the first loop keeps the
  rows whose window contains \<open>today\<close>, the second one (the backup) keeps them all.
\<close>

definition row_rule :: "string list \<Rightarrow> rule" where
  "row_rule row =
     \<lparr> item = row ! 0,
       rule_keywords = map strip (split_on CHR '','' (row ! 1)),
       event = row ! 2,
       tier = row ! 3,
       increase_percent = increase_of (row ! 4),
       start_date = row ! 5,
       end_date = row ! 6 \<rparr>"

definition row_enabled :: "string list \<Rightarrow> bool" where
  "row_enabled row =
     (7 \<le> length row \<and> row ! 0 \<noteq> [] \<and> row ! 1 \<noteq> []
      \<and> (if 7 < length row then upper (row ! 7) else ''Y'') = ''Y'')"

definition in_window :: "string \<Rightarrow> string \<Rightarrow> string \<Rightarrow> bool" where
  "in_window today start end =
     (start \<noteq> [] \<and> end \<noteq> [] \<and> str_le start today \<and> str_le today end)"

fun active_rows :: "string \<Rightarrow> string list list \<Rightarrow> rule list" where
  "active_rows today [] = []"
| "active_rows today (row # rows) =
     (if row_enabled row \<and> in_window today (row ! 5) (row ! 6)
      then row_rule row # active_rows today rows
      else active_rows today rows)"





section \<open>Executing and reverting updates (ebay_auto_pricing.py)\<close>

text \<open>
  \<open>ebay.update_price(item_id, new_price)\<close> is the marketplace's price mutator. It is a
  parameter \<open>upd\<close>: from an item, a price and the state of the marketplace it gives
  \<open>None\<close> when the call raises (token or network error), else the \<open>success\<close> flag of
  its result and the state after the call.
\<close>

type_synonym 'm mutator = "string \<Rightarrow> rat \<Rightarrow> 'm \<Rightarrow> (bool \<times> 'm) option"

text \<open>
  The loop of the live run, \<open>for u in updates\<close>, over the marketplace and the two
  counters \<open>success_count\<close> and \<open>fail_count\<close>. An exception leaves the loop.
\<close>

fun execute_updates ::
  "'m mutator \<Rightarrow> update list \<Rightarrow> 'm \<times> nat \<times> nat \<Rightarrow> py_error + ('m \<times> nat \<times> nat)" where
  "execute_updates upd [] acc = Inr acc"
| "execute_updates upd (u # us) (m, success_count, fail_count) =
     (case upd (u_item_id u) (u_new_price u) m of
        None \<Rightarrow> Inl RequestError
      | Some (success, m') \<Rightarrow>
          if success then execute_updates upd us (m', success_count + 1, fail_count)
          else execute_updates upd us (m', success_count, fail_count + 1))"

text \<open>The log that \<open>run_pricing_update\<close> writes (without its timestamp).\<close>

record log =
  log_dry_run :: bool
  log_listings_found :: nat
  log_active_rules :: nat
  log_updates_planned :: nat
  log_updates :: "update list"


text \<open>
  \<open>revert_prices\<close>: the log file is read (\<open>None\<close>: there is no such file) and every
  entry of its \<open>updates\<close> is sent to the mutator with its \<open>current_price\<close>.
\<close>

fun revert_loop :: "'m mutator \<Rightarrow> update list \<Rightarrow> 'm \<Rightarrow> py_error + 'm" where
  "revert_loop upd [] m = Inr m"
| "revert_loop upd (u # us) m =
     (case upd (u_item_id u) (u_current_price u) m of
        None \<Rightarrow> Inl RequestError
      | Some (success, m') \<Rightarrow> revert_loop upd us m')"

definition revert_prices :: "'m mutator \<Rightarrow> log option \<Rightarrow> 'm \<Rightarrow> py_error + 'm" where
  "revert_prices upd log_file m =
     (case log_file of
        None \<Rightarrow> Inl FileNotFoundError
      | Some lg \<Rightarrow> revert_loop upd (log_updates lg) m)"

text \<open>
  The plan that a reversal stands for: each entry of the log with its old price as the
  price to set.
\<close>

definition reversal_plan :: "update list \<Rightarrow> update list" where
  "reversal_plan us = map (\<lambda>u. u\<lparr>u_new_price := u_current_price u\<rparr>) us"

text \<open>
  A marketplace for the examples: the prices of its items by identifier. Its mutator sets
  the price of an item it has and reports failure for any other.
\<close>

type_synonym market = "(string \<times> rat) list"

definition set_price :: "market mutator" where
  "set_price i p m =
     (if i \<in> fst ` set m then Some (True, map (\<lambda>(k, v). if k = i then (k, p) else (k, v)) m)
      else Some (False, m))"

section \<open>Notions of the specification, and example data\<close>

text \<open>
  A rule matches a title when some keyword of the rule is a case-insensitive substring of
  the title.
\<close>

definition rule_matches :: "rule \<Rightarrow> string \<Rightarrow> bool" where
  "rule_matches r t = (\<exists>kw \<in> set (rule_keywords r). \<exists>a b. lower t = a @ lower kw @ b)"

text \<open>The listing and the rule of the specification's scenarios 1 and 2.\<close>

definition example_listing :: listing where
  "example_listing =
     \<lparr> item_id = ''A1'', title = ''Shepard Fairey Obama Hope Print'',
       current_price = 200, quantity = 1 \<rparr>"

definition example_rule :: "int \<Rightarrow> rule" where
  "example_rule pct =
     \<lparr> item = ''Shepard Fairey'', rule_keywords = [''shepard fairey''],
       event = ''Birthday'', tier = ''MAJOR'', increase_percent = pct,
       start_date = ''2025-02-01'', end_date = ''2025-02-17'' \<rparr>"

text \<open>Further rules, a listing that no rule matches, and a row of the rule sheet whose keyword cell ends
  with a comma.\<close>

definition other_rule :: rule where
  "other_rule =
     \<lparr> item = ''Obama'', rule_keywords = [''banksy'', ''OBAMA hope''],
       event = ''Inauguration'', tier = ''PEAK'', increase_percent = 35,
       start_date = ''2025-01-10'', end_date = ''2025-01-22'' \<rparr>"

definition unmatched_rule :: rule where
  "unmatched_rule =
     \<lparr> item = ''Lennon'', rule_keywords = [''lennon'', ''beatles''],
       event = ''Death anniversary'', tier = ''MAJOR'', increase_percent = 25,
       start_date = ''2025-11-24'', end_date = ''2025-12-10'' \<rparr>"

definition plain_listing :: listing where
  "plain_listing =
     \<lparr> item_id = ''B2'', title = ''Vintage Poster'', current_price = 40, quantity = 3 \<rparr>"

definition comma_row :: "string list" where
  "comma_row = [''Banksy prints'', ''banksy,'', ''Exhibition'', ''MEDIUM'', ''15'',
                ''2025-06-01'', ''2025-06-30'']"

text \<open>The test \<open>result and "tier" in result\<close> on the outcome of one oracle call.\<close>

definition usable :: "outcome \<Rightarrow> bool" where
  "usable out = (case out of Returned (Some r) \<Rightarrow> r_tier r \<noteq> None | _ \<Rightarrow> False)"

text \<open>A response whose tier is a string and whose confidence, where given, is a number: on
  such responses \<open>upper\<close> and \<open>sum\<close> do not raise.\<close>

definition well_typed :: "response \<Rightarrow> bool" where
  "well_typed r =
     ((case r_tier r of Some (JStr s) \<Rightarrow> True | _ \<Rightarrow> False)
      \<and> (case r_confidence r of
            None \<Rightarrow> True | Some (JNum q) \<Rightarrow> True | Some (JBool b) \<Rightarrow> True | _ \<Rightarrow> False))"

text \<open>One step of the count: \<open>tier_votes[tier] = tier_votes.get(tier, 0) + 1\<close>.\<close>

definition bump :: "nat pydict \<Rightarrow> string \<Rightarrow> nat pydict" where
  "bump d t = dict_set d t (dict_get d t 0 + 1)"

text \<open>The JSON values that \<open>sum\<close> adds up.\<close>

definition is_number :: "jvalue \<Rightarrow> bool" where
  "is_number v = (case v of JNum q \<Rightarrow> True | JBool b \<Rightarrow> True | _ \<Rightarrow> False)"

text \<open>An oracle's response with a tier string and a confidence, for the examples.\<close>

definition vote :: "string \<Rightarrow> string \<Rightarrow> rat \<Rightarrow> outcome" where
  "vote src t q =
     Returned (Some \<lparr> r_source = src, r_tier = Some (JStr t),
                      r_confidence = Some (JNum q), r_reasoning = None \<rparr>)"

text \<open>Every confidence stored in the dictionary is a number.\<close>

definition all_numbers :: "jvalue list pydict \<Rightarrow> bool" where
  "all_numbers d = (\<forall>kv \<in> set d. \<forall>v \<in> set (snd kv). is_number v)"

text \<open>The upper-cased tier string under which a response is counted.\<close>

definition tier_string :: "response \<Rightarrow> string" where
  "tier_string r = (case r_tier r of Some (JStr s) \<Rightarrow> upper s | _ \<Rightarrow> upper ''MEDIUM'')"

text \<open>The four tiers of the specification.\<close>

definition valid_tiers :: "string list" where
  "valid_tiers = [''MINOR'', ''MEDIUM'', ''MAJOR'', ''PEAK'']"

text \<open>A response without the key \<open>tier\<close>.\<close>

definition no_tier_response :: response where
  "no_tier_response =
     \<lparr> r_source = ''gemini'', r_tier = None, r_confidence = Some (JNum (3 / 4)),
       r_reasoning = Some ''no tier given'' \<rparr>"

text \<open>Votes of the examples, in completion order: two MEDIUM and one MAJOR; a tie between MEDIUM
  and MAJOR; two votes for a string that is no tier.\<close>

definition votes_2_1 :: "outcome list" where
  "votes_2_1 = [vote ''claude'' ''MEDIUM'' (3 / 4), vote ''openai'' ''medium'' (1 / 4),
                vote ''gemini'' ''MAJOR'' (1 / 2)]"

definition votes_tie :: "outcome list" where
  "votes_tie = [vote ''claude'' ''MEDIUM'' (3 / 4), vote ''openai'' ''MAJOR'' (1 / 2)]"

definition votes_unrecognised :: "outcome list" where
  "votes_unrecognised = [vote ''claude'' ''HIGH'' (3 / 4), vote ''openai'' ''high'' (1 / 4),
                         vote ''gemini'' ''MEDIUM'' (1 / 2)]"

text \<open>The log of the specification's scenario 5: one entry, old price 100, new price 125.\<close>

definition example_log :: log where
  "example_log =
     \<lparr> log_dry_run = False, log_listings_found = 1, log_active_rules = 1,
       log_updates_planned = 1,
       log_updates =
         [\<lparr> u_item_id = ''A1'', u_title = ''Shepard Fairey Obama Hope Print'',
            u_current_price = 100, u_new_price = 125, u_tier = ''MAJOR'',
            u_increase_pct = 25, u_event = ''Birthday'' \<rparr>] \<rparr>"

text \<open>The reference instant of the specification's scenario 3: 2025-08-01, 09:30.\<close>

definition example_now :: datetime where
  "example_now = \<lparr> dt_year = 2025, dt_month = 8, dt_day = 1, dt_tod = 34200000000 \<rparr>"

section \<open>Facts about strings and matching\<close>

lemma startswith_iff: "startswith s p \<longleftrightarrow> (\<exists>t. s = p @ t)"
  by (induction s p rule: startswith.induct) auto

lemma str_in_iff: "str_in kw s \<longleftrightarrow> (\<exists>a b. s = a @ kw @ b)"
proof (induction s)
  case Nil
  then show ?case by auto
next
  case (Cons c cs)
  show ?case
  proof
    assume "str_in kw (c # cs)"
    then consider "startswith (c # cs) kw" | "str_in kw cs" by auto
    then show "\<exists>a b. c # cs = a @ kw @ b"
    proof cases
      case 1
      then obtain t where "c # cs = kw @ t" by (auto simp: startswith_iff)
      then have "c # cs = [] @ kw @ t" by simp
      then show ?thesis by blast
    next
      case 2
      then obtain a b where "cs = a @ kw @ b" using Cons.IH by blast
      then have "c # cs = (c # a) @ kw @ b" by simp
      then show ?thesis by blast
    qed
  next
    assume "\<exists>a b. c # cs = a @ kw @ b"
    then obtain a b where ab: "c # cs = a @ kw @ b" by blast
    show "str_in kw (c # cs)"
    proof (cases a)
      case Nil
      with ab have "startswith (c # cs) kw" by (auto simp: startswith_iff)
      then show ?thesis by simp
    next
      case (Cons x xs)
      with ab have "cs = xs @ kw @ b" by simp
      then have "str_in kw cs" using Cons.IH by blast
      then show ?thesis by simp
    qed
  qed
qed

lemma str_in_empty: "str_in [] s"
  by (induction s) auto

lemma any_keyword_in_iff:
  "any_keyword_in kws t \<longleftrightarrow> (\<exists>kw \<in> set kws. str_in (lower kw) t)"
  by (induction kws) auto

lemma plan_loop_append:
  "plan_loop rs ls (ups, sk) =
     (ups @ concat (map (plan_entry rs) ls), snd (plan_loop rs ls (ups, sk)))"
proof (induction ls arbitrary: ups sk)
  case Nil
  then show ?case by simp
next
  case (Cons l ls)
  show ?case
  proof (cases "match_listing_to_rule (title l) rs")
    case None
    then show ?thesis
      using Cons.IH [of ups "sk @ [(item_id l, take 50 (title l))]"]
      by (simp add: plan_entry_def)
  next
    case (Some r)
    show ?thesis
    proof (cases "current_price l < new_price_of (current_price l) (increase_percent r)")
      case True
      then show ?thesis
        using Some Cons.IH [of "ups @ [make_update l r]" sk]
        by (simp add: plan_entry_def)
    next
      case False
      then show ?thesis
        using Some Cons.IH [of ups sk]
        by (simp add: plan_entry_def)
    qed
  qed
qed

lemma build_plan_concat:
  "build_plan listings rs = concat (map (plan_entry rs) listings)"
proof -
  have "fst (plan_loop rs listings ([], [])) = [] @ concat (map (plan_entry rs) listings)"
    by (subst plan_loop_append) simp
  then show ?thesis by (simp add: build_plan_def)
qed

lemma any_keyword_rule_matches:
  "any_keyword_in (rule_keywords r) (lower t) \<longleftrightarrow> rule_matches r t"
  by (simp add: any_keyword_in_iff str_in_iff rule_matches_def)

lemma match_rules_None:
  "match_rules tlow rs = None \<longleftrightarrow> (\<forall>r \<in> set rs. \<not> any_keyword_in (rule_keywords r) tlow)"
  by (induction rs) auto

lemma match_rules_Some:
  "match_rules tlow rs = Some r \<longleftrightarrow>
     (\<exists>i < length rs. rs ! i = r \<and> any_keyword_in (rule_keywords r) tlow
        \<and> (\<forall>j < i. \<not> any_keyword_in (rule_keywords (rs ! j)) tlow))"
proof (induction rs)
  case Nil
  then show ?case by simp
next
  case (Cons x xs)
  show ?case
  proof (cases "any_keyword_in (rule_keywords x) tlow")
    case True
    show ?thesis
    proof
      assume "match_rules tlow (x # xs) = Some r"
      with True have "x = r" by simp
      with True show "\<exists>i<length (x # xs). (x # xs) ! i = r \<and> any_keyword_in (rule_keywords r) tlow
        \<and> (\<forall>j<i. \<not> any_keyword_in (rule_keywords ((x # xs) ! j)) tlow)"
        by (intro exI [of _ 0]) simp
    next
      assume "\<exists>i<length (x # xs). (x # xs) ! i = r \<and> any_keyword_in (rule_keywords r) tlow
        \<and> (\<forall>j<i. \<not> any_keyword_in (rule_keywords ((x # xs) ! j)) tlow)"
      then obtain i where i: "i < length (x # xs)" "(x # xs) ! i = r"
        "\<forall>j<i. \<not> any_keyword_in (rule_keywords ((x # xs) ! j)) tlow" by blast
      have "i = 0"
      proof (rule ccontr)
        assume "i \<noteq> 0"
        then have "0 < i" by simp
        with i(3) have "\<not> any_keyword_in (rule_keywords ((x # xs) ! 0)) tlow" by blast
        with True show False by simp
      qed
      with i(2) True show "match_rules tlow (x # xs) = Some r" by simp
    qed
  next
    case False
    have "(\<exists>i<length (x # xs). (x # xs) ! i = r \<and> any_keyword_in (rule_keywords r) tlow
        \<and> (\<forall>j<i. \<not> any_keyword_in (rule_keywords ((x # xs) ! j)) tlow))
      \<longleftrightarrow> (\<exists>i<length xs. xs ! i = r \<and> any_keyword_in (rule_keywords r) tlow
        \<and> (\<forall>j<i. \<not> any_keyword_in (rule_keywords (xs ! j)) tlow))" (is "?L \<longleftrightarrow> ?R")
    proof
      assume ?L
      then obtain i where i: "i < length (x # xs)" "(x # xs) ! i = r"
        "any_keyword_in (rule_keywords r) tlow"
        "\<forall>j<i. \<not> any_keyword_in (rule_keywords ((x # xs) ! j)) tlow" by blast
      from i(2,3) False have "i \<noteq> 0" by (cases i) auto
      then obtain k where k: "i = Suc k" by (cases i) auto
      have "\<forall>j<k. \<not> any_keyword_in (rule_keywords (xs ! j)) tlow"
      proof (intro allI impI)
        fix j assume "j < k"
        then have "Suc j < i" using k by simp
        with i(4) have "\<not> any_keyword_in (rule_keywords ((x # xs) ! Suc j)) tlow" by blast
        then show "\<not> any_keyword_in (rule_keywords (xs ! j)) tlow" by simp
      qed
      with i k show ?R by (intro exI [of _ k]) simp
    next
      assume ?R
      then obtain k where k: "k < length xs" "xs ! k = r"
        "any_keyword_in (rule_keywords r) tlow"
        "\<forall>j<k. \<not> any_keyword_in (rule_keywords (xs ! j)) tlow" by blast
      have "\<forall>j<Suc k. \<not> any_keyword_in (rule_keywords ((x # xs) ! j)) tlow"
      proof (intro allI impI)
        fix j assume "j < Suc k"
        then show "\<not> any_keyword_in (rule_keywords ((x # xs) ! j)) tlow"
          using False k(4) by (cases j) auto
      qed
      with k show ?L by (intro exI [of _ "Suc k"]) simp
    qed
    with False Cons.IH show ?thesis by simp
  qed
qed

lemma build_plan_append:
  "build_plan (xs @ ys) rs = build_plan xs rs @ build_plan ys rs"
  by (simp add: build_plan_concat)

lemma build_plan_single: "build_plan [l] rs = plan_entry rs l"
  by (simp add: build_plan_concat)


lemma split_on_leading: "[] \<in> set (map strip (split_on sep (sep # cell)))"
  by (simp add: strip_def)

lemma split_on_tl_empty: "[] \<in> set (tl (split_on sep (cell @ [sep])))"
  by (induction cell) (auto split: list.splits dest: list.set_sel(2) [rotated])

lemma split_on_trailing: "[] \<in> set (map strip (split_on sep (cell @ [sep])))"
proof -
  have "[] \<in> set (tl (split_on sep (cell @ [sep])))" by (rule split_on_tl_empty)
  then have "[] \<in> set (split_on sep (cell @ [sep]))"
    by (cases "split_on sep (cell @ [sep])") auto
  then have "strip [] \<in> strip ` set (split_on sep (cell @ [sep]))" by (rule imageI)
  then show ?thesis by (simp add: strip_def)
qed




section \<open>The claims about the pricing reconciler\<close>

text \<open>
  Claim C5. For every listing and every ordered list of active rules, the listing is
  matched to at most one rule: the first rule, in the given order, one of whose keywords is
  a case-insensitive substring of the title. Nothing is scored or searched. The plan is the
  concatenation of what each listing contributes, a listing contributes no entry or the one
  entry of its matched rule, and a listing that matches no rule contributes nothing: the
  plan is the plan of the other listings.
\<close>

theorem first_match_wins:
  "(match_listing_to_rule t rules = None \<longleftrightarrow> (\<forall>r \<in> set rules. \<not> rule_matches r t))
   \<and> (match_listing_to_rule t rules = Some r \<longleftrightarrow>
        (\<exists>i < length rules. rules ! i = r \<and> rule_matches r t
           \<and> (\<forall>j < i. \<not> rule_matches (rules ! j) t)))
   \<and> build_plan (before @ l # after) rules
        = build_plan before rules @ build_plan [l] rules @ build_plan after rules
   \<and> (build_plan [l] rules = []
        \<or> (\<exists>r'. match_listing_to_rule (title l) rules = Some r'
              \<and> build_plan [l] rules = [make_update l r']))
   \<and> (match_listing_to_rule (title l) rules = None \<longrightarrow>
        build_plan (before @ l # after) rules = build_plan (before @ after) rules)"
proof (intro conjI)
  show "match_listing_to_rule t rules = None \<longleftrightarrow> (\<forall>r \<in> set rules. \<not> rule_matches r t)"
    by (simp add: match_listing_to_rule_def match_rules_None any_keyword_rule_matches)
  show "match_listing_to_rule t rules = Some r \<longleftrightarrow>
        (\<exists>i < length rules. rules ! i = r \<and> rule_matches r t
           \<and> (\<forall>j < i. \<not> rule_matches (rules ! j) t))"
    by (simp add: match_listing_to_rule_def match_rules_Some any_keyword_rule_matches)
  show "build_plan (before @ l # after) rules
        = build_plan before rules @ build_plan [l] rules @ build_plan after rules"
    by (simp add: build_plan_concat)
  show "build_plan [l] rules = []
        \<or> (\<exists>r'. match_listing_to_rule (title l) rules = Some r'
              \<and> build_plan [l] rules = [make_update l r'])"
    by (simp add: build_plan_single plan_entry_def split: option.splits)
  show "match_listing_to_rule (title l) rules = None \<longrightarrow>
        build_plan (before @ l # after) rules = build_plan (before @ after) rules"
    by (simp add: build_plan_concat plan_entry_def)
qed

theorem first_match_wins_witness:
  "match_listing_to_rule (title example_listing) [unmatched_rule, example_rule 25, other_rule]
     = Some (example_rule 25)
   \<and> rule_matches (example_rule 25) (title example_listing)
   \<and> \<not> rule_matches unmatched_rule (title example_listing)
   \<and> match_listing_to_rule (title plain_listing) [unmatched_rule, example_rule 25, other_rule] = None
   \<and> build_plan [example_listing, plain_listing, example_listing]
        [unmatched_rule, example_rule 25, other_rule]
      = build_plan [example_listing, example_listing] [unmatched_rule, example_rule 25, other_rule]"
proof -
  let ?rs = "[unmatched_rule, example_rule 25, other_rule]"
  have m: "match_listing_to_rule (title example_listing) ?rs = Some (example_rule 25)"
    by code_simp
  have n: "match_listing_to_rule (title plain_listing) ?rs = None"
    by code_simp
  from first_match_wins [of "title example_listing" ?rs "example_rule 25" "[example_listing]"
      plain_listing "[example_listing]"] m n
  obtain i where i: "i < length ?rs" "?rs ! i = example_rule 25"
      "rule_matches (example_rule 25) (title example_listing)"
      "\<forall>j<i. \<not> rule_matches (?rs ! j) (title example_listing)"
    and b: "build_plan ([example_listing] @ plain_listing # [example_listing]) ?rs
            = build_plan ([example_listing] @ [example_listing]) ?rs"
    by blast
  have ne: "unmatched_rule \<noteq> example_rule 25" by code_simp
  have "i \<noteq> 0" using i(2) ne by (cases i) auto
  with i(4) have "\<not> rule_matches (?rs ! 0) (title example_listing)" by blast
  with m n i(3) b show ?thesis by simp
qed



text \<open>
  Claim C10. If the keyword list of an active rule contains the empty string, every listing
  matches that rule or an earlier one in the order of the rules. The witness is a sheet row
  whose keyword cell \<open>banksy,\<close> ends with a comma: its rule captures a listing that has
  nothing to do with it.
\<close>

theorem empty_keyword_matches_all:
  assumes "i < length rules" and "[] \<in> set (rule_keywords (rules ! i))"
  shows "\<exists>j \<le> i. match_listing_to_rule t rules = Some (rules ! j)"
proof -
  have "str_in (lower []) (lower t)" by (simp add: lower_def str_in_empty)
  with assms(2) have m: "any_keyword_in (rule_keywords (rules ! i)) (lower t)"
    unfolding any_keyword_in_iff by blast
  have "\<exists>j \<le> i. match_rules tlow rs = Some (rs ! j)"
    if "i < length rs" "any_keyword_in (rule_keywords (rs ! i)) tlow" for rs tlow
    using that
  proof (induction rs arbitrary: i)
    case Nil
    then show ?case by simp
  next
    case (Cons x xs)
    show ?case
    proof (cases "any_keyword_in (rule_keywords x) tlow")
      case True
      then have "match_rules tlow (x # xs) = Some ((x # xs) ! 0)" by simp
      then show ?thesis by blast
    next
      case False
      with Cons.prems obtain k where k: "i = Suc k" by (cases i) auto
      with Cons.prems have "k < length xs" "any_keyword_in (rule_keywords (xs ! k)) tlow" by auto
      from Cons.IH [OF this] obtain j where "j \<le> k" "match_rules tlow xs = Some (xs ! j)" by blast
      with False k have "Suc j \<le> i \<and> match_rules tlow (x # xs) = Some ((x # xs) ! Suc j)" by simp
      then show ?thesis by blast
    qed
  qed
  from this [OF assms(1) m] show ?thesis by (simp add: match_listing_to_rule_def)
qed

theorem empty_keyword_matches_all_witness:
  "active_rows ''2025-06-15'' [comma_row] = [row_rule comma_row]
   \<and> rule_keywords (row_rule comma_row) = [''banksy'', []]
   \<and> match_listing_to_rule (title plain_listing) [unmatched_rule, row_rule comma_row]
       = Some (row_rule comma_row)"
proof -
  let ?rs = "[unmatched_rule, row_rule comma_row]"
  have k: "rule_keywords (row_rule comma_row) = [''banksy'', []]" by code_simp
  have a: "active_rows ''2025-06-15'' [comma_row] = [row_rule comma_row]" by code_simp
  have "1 < length ?rs" "[] \<in> set (rule_keywords (?rs ! 1))" using k by simp_all
  from empty_keyword_matches_all [OF this, of "title plain_listing"]
  obtain j where j: "j \<le> 1" "match_listing_to_rule (title plain_listing) ?rs = Some (?rs ! j)"
    by blast
  have n: "match_listing_to_rule (title plain_listing) [unmatched_rule] = None" by code_simp
  have "j \<noteq> 0"
  proof
    assume "j = 0"
    with j(2) have "match_listing_to_rule (title plain_listing) ?rs = Some unmatched_rule" by simp
    moreover have "match_listing_to_rule (title plain_listing) ?rs \<noteq> Some unmatched_rule"
      by code_simp
    ultimately show False by simp
  qed
  with j(1) have "j = 1" by simp
  with j(2) k a show ?thesis by simp
qed




section \<open>Facts about the vote count\<close>

lemma collect_results_empty:
  "collect_results outs = [] \<longleftrightarrow> (\<forall>out \<in> set outs. \<not> usable out)"
  by (induction outs rule: collect_results.induct) (auto simp: usable_def)

lemma dict_get_set: "dict_get (dict_set d k v) k' z = (if k' = k then v else dict_get d k' z)"
  by (induction d) auto

lemma keys_dict_set:
  "map fst (dict_set d k v) = (if k \<in> fst ` set d then map fst d else map fst d @ [k])"
  by (induction d) force+

lemma dict_set_nonempty: "dict_set d k v \<noteq> []"
  by (cases d) (auto split: if_splits)

lemma dict_get_bump: "dict_get (bump d t) t' 0 = dict_get d t' 0 + (if t' = t then 1 else 0)"
  by (simp add: bump_def dict_get_set)

lemma dict_get_tally: "dict_get (foldl bump d ts) t 0 = dict_get d t 0 + count_list ts t"
  by (induction ts arbitrary: d) (auto simp: dict_get_bump)

lemma keys_bump:
  "map fst (bump d t) = (if t \<in> fst ` set d then map fst d else map fst d @ [t])"
  by (simp add: bump_def keys_dict_set)

lemma keys_tally:
  "\<exists>ys. map fst (foldl bump d ts) = map fst d @ ys \<and> set ys = set ts - fst ` set d"
proof (induction ts arbitrary: d)
  case Nil
  then show ?case by simp
next
  case (Cons t ts)
  from Cons.IH [of "bump d t"] obtain ys where
    ys: "map fst (foldl bump (bump d t) ts) = map fst (bump d t) @ ys"
        "set ys = set ts - fst ` set (bump d t)" by blast
  have s: "fst ` set (bump d t) = insert t (fst ` set d)"
    using keys_bump [of d t] by (metis (no_types, lifting) insert_absorb list.set_map set_append list.simps(15) Un_insert_right sup_bot.right_neutral empty_set)
  show ?case
  proof (cases "t \<in> fst ` set d")
    case True
    then have "map fst (foldl bump d (t # ts)) = map fst d @ ys" using ys(1) by (simp add: keys_bump)
    moreover have "set ys = set (t # ts) - fst ` set d" using ys(2) s True by auto
    ultimately show ?thesis by blast
  next
    case False
    then have "map fst (foldl bump d (t # ts)) = map fst d @ (t # ys)" using ys(1) by (simp add: keys_bump)
    moreover have "set (t # ys) = set (t # ts) - fst ` set d" using ys(2) s False by auto
    ultimately show ?thesis by blast
  qed
qed

lemma distinct_bump: "distinct (map fst d) \<Longrightarrow> distinct (map fst (bump d t))"
  by (auto simp: keys_bump)

lemma distinct_tally: "distinct (map fst d) \<Longrightarrow> distinct (map fst (foldl bump d ts))"
  by (induction ts arbitrary: d) (auto simp: distinct_bump)

lemma dict_get_distinct:
  "distinct (map fst d) \<Longrightarrow> (k, v) \<in> set d \<Longrightarrow> dict_get d k z = v"
  by (induction d) (auto simp: image_iff)

lemma dict_get_absent: "k \<notin> fst ` set d \<Longrightarrow> dict_get d k z = z"
  by (induction d) auto

lemma max_scan_split:
  assumes "\<forall>(k', v') \<in> set pre. v' < bv" and "\<forall>(k', v') \<in> set mid. v' \<le> bv"
  shows "\<exists>d1 v d2. pre @ (best, bv) # mid @ d = d1 @ (max_scan d best bv, v) # d2
           \<and> (\<forall>(k', v') \<in> set d1. v' < v) \<and> (\<forall>(k', v') \<in> set d2. v' \<le> v)"
  using assms
proof (induction d arbitrary: pre best bv mid)
  case Nil
  then show ?case by (intro exI [of _ pre] exI [of _ bv] exI [of _ mid]) simp
next
  case (Cons kv d)
  obtain k v where kv: "kv = (k, v)" by (cases kv)
  show ?case
  proof (cases "bv < v")
    case True
    have 1: "\<forall>(k', v') \<in> set (pre @ (best, bv) # mid). v' < v"
      using Cons.prems True by fastforce
    have 2: "\<forall>(k', v') \<in> set ([] :: nat pydict). v' \<le> v" by simp
    from Cons.IH [OF 1 2, of k] True kv show ?thesis by simp
  next
    case False
    have 2: "\<forall>(k', v') \<in> set (mid @ [(k, v)]). v' \<le> bv"
      using Cons.prems(2) False by auto
    from Cons.IH [OF Cons.prems(1) 2, of best] False kv show ?thesis by simp
  qed
qed

lemma max_key_split:
  assumes "max_key d = Inr k"
  shows "\<exists>d1 v d2. d = d1 @ (k, v) # d2
           \<and> (\<forall>(k', v') \<in> set d1. v' < v) \<and> (\<forall>(k', v') \<in> set d2. v' \<le> v)"
proof (cases d)
  case Nil
  with assms show ?thesis by (simp add: max_key_def)
next
  case (Cons kv d')
  obtain k0 v0 where kv: "kv = (k0, v0)" by (cases kv)
  with Cons assms have k: "k = max_scan d' k0 v0" by (simp add: max_key_def)
  have "\<forall>(k', v') \<in> set ([] :: nat pydict). v' < v0" "\<forall>(k', v') \<in> set ([] :: nat pydict). v' \<le> v0"
    by simp_all
  from max_scan_split [OF this, of k0 d'] show ?thesis using Cons kv k by simp
qed

lemma count_votes_tally:
  "count_votes rs (tv, tc, rsn) = Inr (tv', tc', rsn') \<Longrightarrow>
     \<exists>ts. map tier_of rs = map Inr ts \<and> tv' = foldl bump tv ts"
proof (induction rs arbitrary: tv tc rsn)
  case Nil
  then show ?case by simp
next
  case (Cons r rs)
  from Cons.prems obtain t where t: "tier_of r = Inr t"
    by (cases "tier_of r") auto
  let ?rsn = "(case r_reasoning r of None \<Rightarrow> rsn
               | Some s \<Rightarrow> if s = [] then rsn else rsn @ [r_source r @ '': '' @ s])"
  from Cons.prems t have
    "count_votes rs (bump tv t, dict_set tc t (dict_get tc t [] @ [conf_of r]), ?rsn)
       = Inr (tv', tc', rsn')"
    by (simp add: bump_def)
  from Cons.IH [OF this] obtain ts where
    "map tier_of rs = map Inr ts" "tv' = foldl bump (bump tv t) ts" by blast
  with t have "map tier_of (r # rs) = map Inr (t # ts) \<and> tv' = foldl bump tv (t # ts)" by simp
  then show ?case by blast
qed

lemma tier_of_well_typed: "well_typed r \<Longrightarrow> \<exists>t. tier_of r = Inr t"
  by (auto simp: well_typed_def tier_of_def split: option.splits jvalue.splits)

lemma conf_of_well_typed: "well_typed r \<Longrightarrow> is_number (conf_of r)"
  by (auto simp: well_typed_def conf_of_def is_number_def split: option.splits jvalue.splits)

lemma dict_get_numbers: "all_numbers d \<Longrightarrow> \<forall>v \<in> set (dict_get d k []). is_number v"
  by (induction d) (auto simp: all_numbers_def split: if_splits)

lemma dict_set_numbers:
  "all_numbers d \<Longrightarrow> \<forall>v \<in> set ws. is_number v \<Longrightarrow> all_numbers (dict_set d k' ws)"
  by (induction d) (fastforce simp: all_numbers_def split: if_splits)+

lemma count_votes_succeeds:
  assumes "\<forall>r \<in> set rs. well_typed r"
    and "all_numbers tc"
  shows "\<exists>tv' tc' rsn'. count_votes rs (tv, tc, rsn) = Inr (tv', tc', rsn')
           \<and> all_numbers tc'"
  using assms
proof (induction rs arbitrary: tv tc rsn)
  case Nil
  then show ?case by simp
next
  case (Cons r rs)
  from Cons.prems(1) have wt: "well_typed r" and rest: "\<forall>r \<in> set rs. well_typed r" by simp_all
  from tier_of_well_typed [OF wt] obtain t where t: "tier_of r = Inr t" by blast
  have "\<forall>v \<in> set (dict_get tc t [] @ [conf_of r]). is_number v"
    using dict_get_numbers [OF Cons.prems(2), of t] conf_of_well_typed [OF wt] by auto
  from dict_set_numbers [OF Cons.prems(2) this]
  have inv: "all_numbers (dict_set tc t (dict_get tc t [] @ [conf_of r]))" .
  from Cons.IH [OF rest inv] t show ?case by simp
qed

lemma py_sum_numbers: "\<forall>v \<in> set xs. is_number v \<Longrightarrow> \<exists>q. py_sum xs acc = Inr q"
  by (induction xs acc rule: py_sum.induct) (auto simp: is_number_def)

lemma tally_nonempty: "ts \<noteq> [] \<Longrightarrow> foldl bump d ts \<noteq> []"
proof (induction ts arbitrary: d)
  case Nil
  then show ?case by simp
next
  case (Cons t ts)
  have "bump d t \<noteq> []" by (simp add: bump_def dict_set_nonempty)
  then show ?case using Cons.IH [of "bump d t"]
    by (cases ts) auto
qed

lemma max_key_nonempty: "d \<noteq> [] \<Longrightarrow> \<exists>k. max_key d = Inr k"
  by (cases d) (auto simp: max_key_def)

lemma consensus_structure:
  assumes wt: "\<forall>r \<in> set (collect_results outs). well_typed r"
    and ne: "collect_results outs \<noteq> []"
  shows "\<exists>c ts. get_ai_consensus outs = Inr c
           \<and> map tier_of (collect_results outs) = map Inr ts
           \<and> c_votes c = foldl bump [] ts
           \<and> max_key (c_votes c) = Inr (c_tier c)
           \<and> c_consensus c = (2 \<le> dict_get (c_votes c) (c_tier c) 0)
           \<and> c_ai_count c = Some (length (collect_results outs))"
proof -
  let ?rs = "collect_results outs"
  have "all_numbers []" by (simp add: all_numbers_def)
  from count_votes_succeeds [OF wt this, of "[]" "[]"] obtain tv tc rsn where
    cv: "count_votes ?rs ([], [], []) = Inr (tv, tc, rsn)"
    and inv: "all_numbers tc" by blast
  from count_votes_tally [OF cv] obtain ts where
    ts: "map tier_of ?rs = map Inr ts" "tv = foldl bump [] ts" by blast
  from ts(1) ne have "ts \<noteq> []" by auto
  then have "tv \<noteq> []" using ts(2) by (simp add: tally_nonempty)
  from max_key_nonempty [OF this] obtain w where w: "max_key tv = Inr w" by blast
  from py_sum_numbers [OF dict_get_numbers [OF inv, of w], of 0] obtain q where
    q: "py_sum (dict_get tc w []) 0 = Inr q" by blast
  let ?c = "\<lparr> c_tier = w,
             c_confidence = py_round2 (q / of_nat (length (dict_get tc w []))),
             c_consensus = (2 \<le> dict_get tv w 0),
             c_votes = tv, c_reasonings = Some rsn, c_ai_count = Some (length ?rs) \<rparr>"
  have "get_ai_consensus outs = Inr ?c"
    using ne cv w q by (simp add: get_ai_consensus_def Let_def)
  with ts w show ?thesis by (intro exI [of _ ?c] exI [of _ ts]) simp
qed

lemma takeWhile_first: "w \<notin> set a \<Longrightarrow> takeWhile (\<lambda>x. x \<noteq> w) (a @ w # b) = a"
  by (induction a) auto

lemma winner_properties:
  assumes mk: "max_key (foldl bump [] ts) = Inr w"
  shows "w \<in> set ts
    \<and> (\<forall>t. count_list ts t \<le> count_list ts w)
    \<and> (\<exists>pre post. ts = pre @ w # post \<and> w \<notin> set pre
          \<and> (\<forall>t \<in> set pre. count_list ts t < count_list ts w))"
proof -
  let ?d = "foldl bump [] ts"
  have dist: "distinct (map fst ?d)" by (rule distinct_tally) simp
  have cnt: "dict_get ?d t 0 = count_list ts t" for t
    using dict_get_tally [of "[]" ts t] by simp
  from keys_tally [of "[]" ts] have keys: "set (map fst ?d) = set ts" by auto
  from max_key_split [OF mk] obtain d1 v d2 where
    d: "?d = d1 @ (w, v) # d2"
    and lt: "\<forall>(k', v') \<in> set d1. v' < v" and le: "\<forall>(k', v') \<in> set d2. v' \<le> v" by blast
  have win: "(w, v) \<in> set ?d" using d by simp
  then have "w \<in> set (map fst ?d)" by force
  then have wts: "w \<in> set ts" using keys by simp
  have vw: "count_list ts w = v" using dict_get_distinct [OF dist win, of 0] cnt by simp
  have all: "count_list ts t \<le> count_list ts w" for t
  proof (cases "t \<in> set ts")
    case False
    then show ?thesis by (simp add: count_list_0_iff)
  next
    case True
    then have "t \<in> fst ` set ?d" using keys by simp
    then obtain v' where tv: "(t, v') \<in> set ?d" by force
    then have "count_list ts t = v'" using dict_get_distinct [OF dist tv, of 0] cnt by simp
    moreover from tv d have "(t, v') \<in> set d1 \<or> (t, v') = (w, v) \<or> (t, v') \<in> set d2" by auto
    then have "v' \<le> v" using lt le by fastforce
    ultimately show ?thesis using vw by simp
  qed
  from split_list_first [OF wts] obtain pre post where
    sp: "ts = pre @ w # post" "w \<notin> set pre" by blast
  from keys_tally [of "[]" pre] obtain ys0 where
    k0: "map fst (foldl bump [] pre) = ys0" "set ys0 = set pre" by auto
  have nw: "w \<notin> fst ` set (foldl bump [] pre)" using k0 sp(2)
    by (metis list.set_map)
  from keys_tally [of "bump (foldl bump [] pre) w" post] obtain ys where
    "map fst (foldl bump (bump (foldl bump [] pre) w) post)
       = map fst (bump (foldl bump [] pre) w) @ ys" by blast
  then have ks: "map fst ?d = ys0 @ w # ys"
    using sp(1) nw k0(1) by (simp add: keys_bump)
  have "map fst ?d = map fst d1 @ w # map fst d2" using d by simp
  with ks have eq: "ys0 @ w # ys = map fst d1 @ w # map fst d2" by simp
  have "w \<notin> set ys0" using k0(2) sp(2) by simp
  moreover have "w \<notin> set (map fst d1)" using dist d by auto
  ultimately have "ys0 = map fst d1" using eq takeWhile_first [of w ys0 ys]
      takeWhile_first [of w "map fst d1" "map fst d2"] by simp
  then have pre_d1: "set pre = fst ` set d1" using k0(2) by simp
  have "count_list ts t < count_list ts w" if "t \<in> set pre" for t
  proof -
    from that pre_d1 obtain v' where tv: "(t, v') \<in> set d1" by force
    then have "(t, v') \<in> set ?d" using d by simp
    then have "count_list ts t = v'" using dict_get_distinct [OF dist _, of t v' 0] cnt by simp
    moreover have "v' < v" using lt tv by fastforce
    ultimately show ?thesis using vw by simp
  qed
  with wts all sp show ?thesis by blast
qed

lemma tier_of_tier_string: "well_typed r \<Longrightarrow> tier_of r = Inr (tier_string r)"
  by (auto simp: well_typed_def tier_of_def tier_string_def split: option.splits jvalue.splits)

lemma tiers_of_results:
  assumes "\<forall>r \<in> set rs. well_typed r" and "map tier_of rs = map Inr ts"
  shows "ts = map tier_string rs"
proof -
  have "map tier_of rs = map Inr (map tier_string rs)"
    using assms(1) by (induction rs) (auto simp: tier_of_tier_string)
  with assms(2) have "map Inr ts = map (Inr :: string \<Rightarrow> py_error + string) (map tier_string rs)"
    by simp
  moreover have "inj (Inr :: string \<Rightarrow> py_error + string)" by (simp add: inj_on_def)
  ultimately show ?thesis by (simp only: inj_map_eq_map)
qed

section \<open>The claims about the tier classifier\<close>

text \<open>
  Claim C2, as the code has it. For every non-empty collection of responses whose tier is a
  string and whose confidence is a number, the consensus is computed and its tier has the
  most votes. Among the tiers with the highest count the one whose first vote came first in
  completion order wins: every tier voted before the first vote of the winner has strictly
  fewer votes. The severity of a tier plays no part. The witness: MEDIUM, MEDIUM, MAJOR
  yield MEDIUM.
\<close>

theorem plurality_first_vote_wins:
  assumes "\<forall>r \<in> set (collect_results outs). well_typed r"
    and "collect_results outs \<noteq> []"
  shows "\<exists>c. get_ai_consensus outs = Inr c
    \<and> (let ts = map tier_string (collect_results outs); w = c_tier c
       in w \<in> set ts
          \<and> (\<forall>t. count_list ts t \<le> count_list ts w)
          \<and> (\<exists>pre post. ts = pre @ w # post \<and> w \<notin> set pre
                \<and> (\<forall>t \<in> set pre. count_list ts t < count_list ts w)))"
proof -
  from consensus_structure [OF assms] obtain c ts where
    c: "get_ai_consensus outs = Inr c" "map tier_of (collect_results outs) = map Inr ts"
       "c_votes c = foldl bump [] ts" "max_key (c_votes c) = Inr (c_tier c)" by blast
  have ts: "ts = map tier_string (collect_results outs)"
    by (rule tiers_of_results [OF assms(1) c(2)])
  from c(3,4) have "max_key (foldl bump [] ts) = Inr (c_tier c)" by simp
  from winner_properties [OF this] c(1) ts show ?thesis by (simp add: Let_def)
qed

theorem plurality_first_vote_wins_witness:
  "map tier_string (collect_results votes_2_1) = [''MEDIUM'', ''MEDIUM'', ''MAJOR'']
   \<and> (\<exists>c. get_ai_consensus votes_2_1 = Inr c \<and> c_tier c = ''MEDIUM''
          \<and> (\<forall>t. count_list [''MEDIUM'', ''MEDIUM'', ''MAJOR''] t
                    \<le> count_list [''MEDIUM'', ''MEDIUM'', ''MAJOR''] (c_tier c)))"
proof -
  have wt: "\<forall>r \<in> set (collect_results votes_2_1). well_typed r" by code_simp
  have ne: "collect_results votes_2_1 \<noteq> []" by code_simp
  have ts: "map tier_string (collect_results votes_2_1) = [''MEDIUM'', ''MEDIUM'', ''MAJOR'']"
    by code_simp
  have v: "map_sum id c_tier (get_ai_consensus votes_2_1) = Inr ''MEDIUM''" by code_simp
  from plurality_first_vote_wins [OF wt ne] obtain c where
    c: "get_ai_consensus votes_2_1 = Inr c"
       "\<forall>t. count_list (map tier_string (collect_results votes_2_1)) t
              \<le> count_list (map tier_string (collect_results votes_2_1)) (c_tier c)"
    unfolding Let_def by blast
  from v c(1) have "c_tier c = ''MEDIUM''" by simp
  with c ts show ?thesis by simp
qed

text \<open>
  The claim as stated fails on the tie: the votes MEDIUM then MAJOR yield MEDIUM, not the
  tier of higher severity.
\<close>

theorem tie_counterexample:
  "get_ai_consensus votes_tie =
     Inr \<lparr> c_tier = ''MEDIUM'', c_confidence = 3 / 4, c_consensus = False,
           c_votes = [(''MEDIUM'', 1), (''MAJOR'', 1)], c_reasonings = Some [],
           c_ai_count = Some 2 \<rparr>"
  by code_simp

text \<open>
  Claim C6, as the code has it. A response whose upper-cased tier string is none of the
  four tiers is not discarded: the vote count of every string, a tier or not, is the number
  of responses that carry it once upper-cased, every response with a tier is counted in
  \<open>ai_count\<close>, and the consensus tier is one of the strings the responses carry.
\<close>

theorem unrecognised_tiers_are_counted:
  assumes "\<forall>r \<in> set (collect_results outs). well_typed r"
    and "collect_results outs \<noteq> []"
  shows "\<exists>c. get_ai_consensus outs = Inr c
    \<and> (\<forall>t. dict_get (c_votes c) t 0 = count_list (map tier_string (collect_results outs)) t)
    \<and> c_ai_count c = Some (length (collect_results outs))
    \<and> c_tier c \<in> tier_string ` set (collect_results outs)"
proof -
  from consensus_structure [OF assms] obtain c ts where
    c: "get_ai_consensus outs = Inr c" "map tier_of (collect_results outs) = map Inr ts"
       "c_votes c = foldl bump [] ts" "max_key (c_votes c) = Inr (c_tier c)"
       "c_ai_count c = Some (length (collect_results outs))" by blast
  have ts: "ts = map tier_string (collect_results outs)"
    by (rule tiers_of_results [OF assms(1) c(2)])
  have cnt: "dict_get (c_votes c) t 0 = count_list ts t" for t
    using dict_get_tally [of "[]" ts t] c(3) by simp
  from c(3,4) have "max_key (foldl bump [] ts) = Inr (c_tier c)" by simp
  from winner_properties [OF this] have "c_tier c \<in> set ts" by blast
  with c(1,5) cnt ts show ?thesis by auto
qed

theorem unrecognised_tiers_are_counted_witness:
  "\<exists>c. get_ai_consensus votes_unrecognised = Inr c
     \<and> dict_get (c_votes c) ''HIGH'' 0 = 2
     \<and> c_ai_count c = Some 3"
proof -
  have wt: "\<forall>r \<in> set (collect_results votes_unrecognised). well_typed r" by code_simp
  have ne: "collect_results votes_unrecognised \<noteq> []" by code_simp
  have n: "count_list (map tier_string (collect_results votes_unrecognised)) ''HIGH'' = 2"
    by code_simp
  have l: "length (collect_results votes_unrecognised) = 3" by code_simp
  from unrecognised_tiers_are_counted [OF wt ne] n l show ?thesis by auto
qed

text \<open>
  The claim as stated fails: two votes for HIGH and one for MEDIUM yield the consensus tier
  HIGH, where the valid votes alone would yield MEDIUM.
\<close>

theorem unrecognised_tier_counterexample:
  "''HIGH'' \<notin> set valid_tiers
   \<and> get_ai_consensus votes_unrecognised =
     Inr \<lparr> c_tier = ''HIGH'', c_confidence = 1 / 2, c_consensus = True,
           c_votes = [(''HIGH'', 2), (''MEDIUM'', 1)], c_reasonings = Some [],
           c_ai_count = Some 3 \<rparr>"
  by code_simp

text \<open>
  Claim C7. If no oracle call returns a usable vote (each call raised, returned nothing or
  returned a response without a tier), the classification returns the fallback consensus
  with tier MEDIUM, confidence 0.5 and no majority; it raises nothing.
\<close>

theorem fallback_consensus:
  assumes "\<forall>out \<in> set outs. \<not> usable out"
  shows "get_ai_consensus outs =
           Inr \<lparr> c_tier = ''MEDIUM'', c_confidence = 1 / 2, c_consensus = False,
                 c_votes = [], c_reasonings = None, c_ai_count = None \<rparr>"
  using assms by (simp add: get_ai_consensus_def collect_results_empty)

theorem fallback_consensus_witness:
  "get_ai_consensus [Raised, Returned None, Returned (Some no_tier_response)] =
     Inr \<lparr> c_tier = ''MEDIUM'', c_confidence = 1 / 2, c_consensus = False,
           c_votes = [], c_reasonings = None, c_ai_count = None \<rparr>"
proof -
  have "\<forall>out \<in> set [Raised, Returned None, Returned (Some no_tier_response)]. \<not> usable out"
    by (simp add: usable_def no_tier_response_def)
  from fallback_consensus [OF this] show ?thesis .
qed

section \<open>The claims about the update executor and the rule repository\<close>

lemma revert_loop_execute:
  "revert_loop upd us m =
     (case execute_updates upd (reversal_plan us) (m, s, f) of
        Inl e \<Rightarrow> Inl e
      | Inr (m', s', f') \<Rightarrow> Inr m')"
proof (induction us arbitrary: m s f)
  case Nil
  then show ?case by (simp add: reversal_plan_def)
next
  case (Cons u us)
  show ?case
  proof (cases "upd (u_item_id u) (u_current_price u) m")
    case None
    then show ?thesis by (simp add: reversal_plan_def)
  next
    case (Some res)
    obtain ok m' where res: "res = (ok, m')" by (cases res)
    show ?thesis
      using Some res Cons.IH [of m' "s + 1" f] Cons.IH [of m' s "f + 1"]
      by (simp add: reversal_plan_def)
  qed
qed


text \<open>
  Claim C8. Reverting a log issues, for every entry of the log (the successful ones among
  them: the log records no outcome per entry), the mutator call that sets the entry's old
  price. It is the loop of a live run executed on the reversal plan, the entries of the log
  with their old price as the new price: the marketplace ends in the same state and an
  exception of the mutator ends both in the same way. The witness is the log with one entry
  of old price 100 and new price 125: the reversal plan's entry has the new price 100.
\<close>

theorem revert_replays_log:
  "revert_prices upd (Some lg) m =
     (case execute_updates upd (reversal_plan (log_updates lg)) (m, 0, 0) of
        Inl e \<Rightarrow> Inl e
      | Inr (m', success_count, fail_count) \<Rightarrow> Inr m')
   \<and> map u_new_price (reversal_plan (log_updates lg)) = map u_current_price (log_updates lg)
   \<and> map u_item_id (reversal_plan (log_updates lg)) = map u_item_id (log_updates lg)"
proof (intro conjI)
  show "revert_prices upd (Some lg) m =
     (case execute_updates upd (reversal_plan (log_updates lg)) (m, 0, 0) of
        Inl e \<Rightarrow> Inl e
      | Inr (m', success_count, fail_count) \<Rightarrow> Inr m')"
    using revert_loop_execute [of upd "log_updates lg" m 0 0] by (simp add: revert_prices_def)
  show "map u_new_price (reversal_plan (log_updates lg)) = map u_current_price (log_updates lg)"
    by (simp add: reversal_plan_def comp_def)
  show "map u_item_id (reversal_plan (log_updates lg)) = map u_item_id (log_updates lg)"
    by (simp add: reversal_plan_def comp_def)
qed

theorem revert_replays_log_witness:
  "map u_new_price (reversal_plan (log_updates example_log)) = [100]
   \<and> revert_prices set_price (Some example_log) [(''A1'', 125)] = Inr [(''A1'', 100)]
   \<and> execute_updates set_price (reversal_plan (log_updates example_log)) ([(''A1'', 125)], 0, 0)
       = Inr ([(''A1'', 100)], 1, 0)"
proof -
  have e: "execute_updates set_price (reversal_plan (log_updates example_log))
             ([(''A1'', 125)], 0, 0) = Inr ([(''A1'', 100)], 1, 0)"
    by code_simp
  have c: "map u_current_price (log_updates example_log) = [100]"
    by (simp add: example_log_def)
  from revert_replays_log [of set_price example_log "[(''A1'', 125)]"] e c
  show ?thesis by simp
qed



section \<open>Facts about the calendar\<close>

lemma month_cases:
  assumes "1 \<le> m" and "m \<le> (12::int)"
  obtains "m = 1" | "m = 2" | "m = 3" | "m = 4" | "m = 5" | "m = 6"
    | "m = 7" | "m = 8" | "m = 9" | "m = 10" | "m = 11" | "m = 12"
proof -
  have "m = 1 \<or> m = 2 \<or> m = 3 \<or> m = 4 \<or> m = 5 \<or> m = 6
      \<or> m = 7 \<or> m = 8 \<or> m = 9 \<or> m = 10 \<or> m = 11 \<or> m = 12"
    using assms by presburger
  then show ?thesis using that by blast
qed

lemma dbm_step:
  assumes "1 \<le> m" and "m \<le> 11"
  shows "days_before_month y (m + 1) = days_before_month y m + days_in_month y m"
proof -
  from assms have "1 \<le> m" "m \<le> 12" by simp_all
  then show ?thesis
    using assms(2)
    by (cases m rule: month_cases)
       (simp_all add: days_before_month_def days_in_month_def DAYS_BEFORE_MONTH_def
          DAYS_IN_MONTH_def)
qed

lemma dbm_first: "days_before_month y 1 = 0"
  by (simp add: days_before_month_def DAYS_BEFORE_MONTH_def)

lemma dbm_last:
  "days_before_month y 12 + days_in_month y 12 = 365 + (if is_leap y then 1 else 0)"
  by (simp add: days_before_month_def days_in_month_def DAYS_BEFORE_MONTH_def DAYS_IN_MONTH_def)

lemma dim_ge:
  assumes "1 \<le> m" and "m \<le> 12"
  shows "28 \<le> days_in_month y m"
  using assms
  by (cases m rule: month_cases) (simp_all add: days_in_month_def DAYS_IN_MONTH_def)

lemma dbm_mono:
  assumes "1 \<le> m" and "m < m'" and "m' \<le> 12"
  shows "days_before_month y m + days_in_month y m \<le> days_before_month y m'"
proof -
  have "m + 1 \<le> m'" using assms(2) by simp
  then have "m' \<le> 12 \<longrightarrow> days_before_month y m + days_in_month y m \<le> days_before_month y m'"
  proof (induction m' rule: int_ge_induct)
    case base
    show ?case using dbm_step [of m y] assms(1) by simp
  next
    case (step i)
    show ?case
    proof
      assume "i + 1 \<le> 12"
      then have i: "i \<le> 11" by simp
      with step.IH have "days_before_month y m + days_in_month y m \<le> days_before_month y i"
        by simp
      moreover have "1 \<le> i" using step.hyps assms(1) by simp
      then have "days_before_month y (i + 1) = days_before_month y i + days_in_month y i"
        using i by (rule dbm_step)
      moreover have "28 \<le> days_in_month y i" using \<open>1 \<le> i\<close> i by (intro dim_ge) simp_all
      ultimately show "days_before_month y m + days_in_month y m \<le> days_before_month y (i + 1)"
        by simp
    qed
  qed
  with assms(3) show ?thesis by simp
qed

lemma dbm_nonneg:
  assumes "1 \<le> m" and "m \<le> 12"
  shows "0 \<le> days_before_month y m"
proof (cases "m = 1")
  case True
  then show ?thesis by (simp add: dbm_first)
next
  case False
  with assms have "1 < m" by simp
  from dbm_mono [OF _ this assms(2), of y] dim_ge [of 1 y] dbm_first [of y]
  show ?thesis by simp
qed

lemma day_of_year_bounds:
  assumes "1 \<le> m" and "m \<le> 12" and "1 \<le> d" and "d \<le> days_in_month y m"
  shows "1 \<le> days_before_month y m + d"
    and "days_before_month y m + d \<le> 365 + (if is_leap y then 1 else 0)"
proof -
  show "1 \<le> days_before_month y m + d"
    using dbm_nonneg [OF assms(1,2), of y] assms(3) by simp
  show "days_before_month y m + d \<le> 365 + (if is_leap y then 1 else 0)"
  proof (cases "m = 12")
    case True
    with assms(4) dbm_last [of y] show ?thesis by simp
  next
    case False
    with assms(2) have "m < 12" by simp
    from dbm_mono [OF assms(1) this, of y] dbm_last [of y] dim_ge [of 12 y] assms(4)
    show ?thesis by simp
  qed
qed

lemma div_pred:
  assumes "0 < (k::int)"
  shows "y div k - (y - 1) div k = (if y mod k = 0 then 1 else 0)"
proof -
  define q where "q = y div k"
  define r where "r = y mod k"
  have y: "y = k * q + r" by (simp add: q_def r_def)
  have r: "0 \<le> r" "r < k" using assms by (simp_all add: r_def)
  show ?thesis
  proof (cases "r = 0")
    case True
    have "y - 1 = k * (q - 1) + (k - 1)" using y True by (simp add: algebra_simps)
    then have "(y - 1) div k = q - 1"
      using assms by (intro int_div_pos_eq [of _ _ _ "k - 1"]) simp_all
    with True show ?thesis by (simp add: q_def r_def)
  next
    case False
    have "y - 1 = k * q + (r - 1)" using y by simp
    then have "(y - 1) div k = q"
      using r False by (intro int_div_pos_eq [of _ _ _ "r - 1"]) simp_all
    with False show ?thesis by (simp add: q_def r_def)
  qed
qed

lemma dby_step:
  "days_before_year (y + 1) = days_before_year y + 365 + (if is_leap y then 1 else 0)"
proof -
  have 4: "y div 4 - (y - 1) div 4 = (if y mod 4 = 0 then 1 else 0)" by (rule div_pred) simp
  have 100: "y div 100 - (y - 1) div 100 = (if y mod 100 = 0 then 1 else 0)"
    by (rule div_pred) simp
  have 400: "y div 400 - (y - 1) div 400 = (if y mod 400 = 0 then 1 else 0)"
    by (rule div_pred) simp
  have a: "y mod 4 = 0" if "y mod 100 = 0"
  proof -
    have "(4::int) dvd 100" by simp
    moreover have "100 dvd y" using that by (simp add: mod_eq_0_iff_dvd)
    ultimately have "4 dvd y" by (rule dvd_trans)
    then show ?thesis by (simp add: mod_eq_0_iff_dvd)
  qed
  have b: "y mod 100 = 0" if "y mod 400 = 0"
  proof -
    have "(100::int) dvd 400" by simp
    moreover have "400 dvd y" using that by (simp add: mod_eq_0_iff_dvd)
    ultimately have "100 dvd y" by (rule dvd_trans)
    then show ?thesis by (simp add: mod_eq_0_iff_dvd)
  qed
  define L where "L = (if is_leap y then 1 else (0::int))"
  have L: "(if y mod 4 = 0 then 1 else 0) - (if y mod 100 = 0 then 1 else 0)
             + (if y mod 400 = 0 then 1 else (0::int)) = L"
  proof (cases "y mod 4 = 0")
    case False
    with a b show ?thesis by (auto simp: L_def is_leap_def)
  next
    case True
    show ?thesis
    proof (cases "y mod 100 = 0")
      case False
      with True b show ?thesis by (auto simp: L_def is_leap_def)
    next
      case h: True
      with True show ?thesis by (cases "y mod 400 = 0") (simp_all add: L_def is_leap_def)
    qed
  qed
  have "days_before_year (y + 1) - days_before_year y
          = 365 + (y div 4 - (y - 1) div 4) - (y div 100 - (y - 1) div 100)
              + (y div 400 - (y - 1) div 400)"
    by (simp add: days_before_year_def Let_def algebra_simps)
  also have "\<dots> = 365 + L" unfolding 4 100 400 using L by simp
  finally show ?thesis unfolding L_def by simp
qed

lemma dby_mono:
  assumes "y < y'"
  shows "days_before_year y + 365 + (if is_leap y then 1 else 0) \<le> days_before_year y'"
proof -
  have "y + 1 \<le> y'" using assms by simp
  then show ?thesis
  proof (induction y' rule: int_ge_induct)
    case base
    show ?case by (simp add: dby_step)
  next
    case (step i)
    have "days_before_year i \<le> days_before_year (i + 1)" by (simp add: dby_step)
    with step.IH show ?case by simp
  qed
qed


lemma ymd2ord_strict:
  assumes a: "1 \<le> m" "m \<le> 12" "1 \<le> d" "d \<le> days_in_month y m"
    and b: "1 \<le> m'" "m' \<le> 12" "1 \<le> d'" "d' \<le> days_in_month y' m'"
    and less: "y < y' \<or> (y = y' \<and> (m < m' \<or> (m = m' \<and> d < d')))"
  shows "ymd2ord y m d < ymd2ord y' m' d'"
proof -
  consider "y < y'" | "y = y'" "m < m'" | "y = y'" "m = m'" "d < d'" using less by blast
  then show ?thesis
  proof cases
    case 1
    have "ymd2ord y m d \<le> days_before_year y + 365 + (if is_leap y then 1 else 0)"
      using day_of_year_bounds(2) [OF a] by (simp add: ymd2ord_def)
    also have "\<dots> \<le> days_before_year y'" using 1 by (rule dby_mono)
    also have "\<dots> < ymd2ord y' m' d'"
      using day_of_year_bounds(1) [OF b] by (simp add: ymd2ord_def)
    finally show ?thesis .
  next
    case 2
    have "days_before_month y m + d \<le> days_before_month y m + days_in_month y m"
      using a(4) by simp
    also have "\<dots> \<le> days_before_month y m'" using a(1) 2(2) b(2) by (rule dbm_mono)
    also have "\<dots> < days_before_month y m' + d'" using b(3) by simp
    finally show ?thesis using 2(1) by (simp add: ymd2ord_def)
  next
    case 3
    then show ?thesis by (simp add: ymd2ord_def)
  qed
qed

lemma ord2md_correct:
  assumes "0 \<le> r" and "r \<le> 364" and "ord2md leap r = (m, d)"
  shows "1 \<le> m \<and> m \<le> 12 \<and> 1 \<le> d
    \<and> d \<le> (if m = 2 \<and> leap then 29 else DAYS_IN_MONTH ! nat m)
    \<and> DAYS_BEFORE_MONTH ! nat m + (if 2 < m \<and> leap then 1 else 0) + d = r + 1"
proof -
  define m0 where "m0 = (r + 50) div 32"
  have lo: "32 * m0 \<le> r + 50" and hi: "r + 50 < 32 * m0 + 32"
    unfolding m0_def by (simp_all add: algebra_simps)
  have "1 \<le> m0" "m0 \<le> 12" using lo hi assms(1,2) by simp_all
  then show ?thesis
  proof (cases m0 rule: month_cases)
    case 1
    with lo hi assms show ?thesis
      by (auto simp: ord2md_def m0_def [symmetric] Let_def DAYS_BEFORE_MONTH_def DAYS_IN_MONTH_def split: if_splits)
  next
    case 2
    with lo hi assms show ?thesis
      by (auto simp: ord2md_def m0_def [symmetric] Let_def DAYS_BEFORE_MONTH_def DAYS_IN_MONTH_def split: if_splits)
  next
    case 3
    with lo hi assms show ?thesis
      by (auto simp: ord2md_def m0_def [symmetric] Let_def DAYS_BEFORE_MONTH_def DAYS_IN_MONTH_def split: if_splits)
  next
    case 4
    with lo hi assms show ?thesis
      by (auto simp: ord2md_def m0_def [symmetric] Let_def DAYS_BEFORE_MONTH_def DAYS_IN_MONTH_def split: if_splits)
  next
    case 5
    with lo hi assms show ?thesis
      by (auto simp: ord2md_def m0_def [symmetric] Let_def DAYS_BEFORE_MONTH_def DAYS_IN_MONTH_def split: if_splits)
  next
    case 6
    with lo hi assms show ?thesis
      by (auto simp: ord2md_def m0_def [symmetric] Let_def DAYS_BEFORE_MONTH_def DAYS_IN_MONTH_def split: if_splits)
  next
    case 7
    with lo hi assms show ?thesis
      by (auto simp: ord2md_def m0_def [symmetric] Let_def DAYS_BEFORE_MONTH_def DAYS_IN_MONTH_def split: if_splits)
  next
    case 8
    with lo hi assms show ?thesis
      by (auto simp: ord2md_def m0_def [symmetric] Let_def DAYS_BEFORE_MONTH_def DAYS_IN_MONTH_def split: if_splits)
  next
    case 9
    with lo hi assms show ?thesis
      by (auto simp: ord2md_def m0_def [symmetric] Let_def DAYS_BEFORE_MONTH_def DAYS_IN_MONTH_def split: if_splits)
  next
    case 10
    with lo hi assms show ?thesis
      by (auto simp: ord2md_def m0_def [symmetric] Let_def DAYS_BEFORE_MONTH_def DAYS_IN_MONTH_def split: if_splits)
  next
    case 11
    with lo hi assms show ?thesis
      by (auto simp: ord2md_def m0_def [symmetric] Let_def DAYS_BEFORE_MONTH_def DAYS_IN_MONTH_def split: if_splits)
  next
    case 12
    with lo hi assms show ?thesis
      by (auto simp: ord2md_def m0_def [symmetric] Let_def DAYS_BEFORE_MONTH_def DAYS_IN_MONTH_def split: if_splits)
  qed
qed


lemma mod_zero_iff:
  assumes "1 \<le> r" and "r \<le> (k::int)"
  shows "(k * q + r) mod k = 0 \<longleftrightarrow> r = k"
proof -
  have "(k * q + r) mod k = r mod k" by simp
  moreover have "r mod k = 0 \<longleftrightarrow> r = k"
  proof (cases "r = k")
    case True
    then show ?thesis by simp
  next
    case False
    with assms have "r mod k = r" by simp
    with assms False show ?thesis by simp
  qed
  ultimately show ?thesis by simp
qed

lemma leap_decomp:
  assumes "0 \<le> e" "e \<le> 3" "0 \<le> c" "c \<le> 24" "0 \<le> b" "b \<le> 3"
  shows "is_leap (400 * a + 100 * b + 4 * c + e + 1) \<longleftrightarrow> e = 3 \<and> (c \<noteq> 24 \<or> b = 3)"
proof -
  let ?y = "400 * a + 100 * b + 4 * c + e + 1"
  have y4: "?y = 4 * (100 * a + 25 * b + c) + (e + 1)" by simp
  have y100: "?y = 100 * (4 * a + b) + (4 * c + e + 1)" by simp
  have y400: "?y = 400 * a + (100 * b + 4 * c + e + 1)" by simp
  have m4: "?y mod 4 = 0 \<longleftrightarrow> e = 3"
    using mod_zero_iff [of "e + 1" 4 "100 * a + 25 * b + c"] assms unfolding y4 [symmetric] by auto
  have m100: "?y mod 100 = 0 \<longleftrightarrow> 4 * c + e + 1 = 100"
    using mod_zero_iff [of "4 * c + e + 1" 100 "4 * a + b"] assms unfolding y100 [symmetric] by auto
  have m400: "?y mod 400 = 0 \<longleftrightarrow> 100 * b + 4 * c + e + 1 = 400"
    using mod_zero_iff [of "100 * b + 4 * c + e + 1" 400 a] assms unfolding y400 [symmetric] by auto
  have "4 * c + e + 1 = 100 \<longleftrightarrow> c = 24 \<and> e = 3" using assms by auto
  moreover have "100 * b + 4 * c + e + 1 = 400 \<longleftrightarrow> b = 3 \<and> c = 24 \<and> e = 3" using assms by auto
  ultimately show ?thesis unfolding is_leap_def m4 m100 m400 by auto
qed

lemma dby_decomp:
  assumes "0 \<le> e" "e \<le> 3" "0 \<le> c" "c \<le> 24" "0 \<le> b" "b \<le> 3"
  shows "days_before_year (400 * a + 100 * b + 4 * c + e + 1)
           = 146097 * a + 36524 * b + 1461 * c + 365 * e"
proof -
  let ?y = "400 * a + 100 * b + 4 * c + e"
  have d4: "?y div 4 = 100 * a + 25 * b + c"
    using assms by (intro int_div_pos_eq [of _ _ _ e]) simp_all
  have d100: "?y div 100 = 4 * a + b"
    using assms by (intro int_div_pos_eq [of _ _ _ "4 * c + e"]) simp_all
  have d400: "?y div 400 = a"
    using assms by (intro int_div_pos_eq [of _ _ _ "100 * b + 4 * c + e"]) simp_all
  show ?thesis
    unfolding days_before_year_def Let_def by (simp add: d4 d100 d400)
qed

lemma divmod_bounds:
  assumes "0 < (k::int)"
  shows "x = k * (x div k) + x mod k" and "0 \<le> x mod k" and "x mod k < k"
  using assms by simp_all

lemma ord2ymd_correct:
  assumes "ord2ymd n0 = (y, m, d)"
  shows "1 \<le> m \<and> m \<le> 12 \<and> 1 \<le> d \<and> d \<le> days_in_month y m \<and> ymd2ord y m d = n0"
proof -
  define n where "n = n0 - 1"
  define a where "a = n div 146097"
  define r1 where "r1 = n mod 146097"
  define b where "b = r1 div 36524"
  define r2 where "r2 = r1 mod 36524"
  define c where "c = r2 div 1461"
  define r3 where "r3 = r2 mod 1461"
  define e where "e = r3 div 365"
  define r4 where "r4 = r3 mod 365"
  define Y where "Y = 400 * a + 100 * b + 4 * c + e + 1"
  have n: "n = 146097 * a + r1" "0 \<le> r1" "r1 < 146097"
    unfolding a_def r1_def by (rule divmod_bounds, simp)+
  have r1: "r1 = 36524 * b + r2" "0 \<le> r2" "r2 < 36524"
    unfolding b_def r2_def by (rule divmod_bounds, simp)+
  have r2: "r2 = 1461 * c + r3" "0 \<le> r3" "r3 < 1461"
    unfolding c_def r3_def by (rule divmod_bounds, simp)+
  have r3: "r3 = 365 * e + r4" "0 \<le> r4" "r4 < 365"
    unfolding e_def r4_def by (rule divmod_bounds, simp)+
  have b: "0 \<le> b" "b \<le> 4" using n r1 by linarith+
  have c: "0 \<le> c" "c \<le> 24" using r1 r2 by linarith+
  have e: "0 \<le> e" "e \<le> 4" using r2 r3 by linarith+
  have unf: "ord2ymd n0 =
      (if e = 4 \<or> b = 4 then (Y - 1, 12, 31)
       else case ord2md (e = 3 \<and> (c \<noteq> 24 \<or> b = 3)) r4 of (mo, da) \<Rightarrow> (Y, mo, da))"
    unfolding ord2ymd_def Let_def
    by (simp add: n_def [symmetric] a_def [symmetric] r1_def [symmetric] b_def [symmetric]
          r2_def [symmetric] c_def [symmetric] r3_def [symmetric] e_def [symmetric]
          r4_def [symmetric] Y_def algebra_simps)
  have n0: "n0 = n + 1" by (simp add: n_def)
  consider "b = 4" | "b \<le> 3" "e = 4" | "b \<le> 3" "e \<le> 3" using b e by linarith
  then show ?thesis
  proof cases
    case 1
    with n r1 have "r2 = 0" by linarith
    with r2 c have "c = 0" "r3 = 0" by linarith+
    with r3 e have "e = 0" "r4 = 0" by linarith+
    have ymd: "y = 400 * a + 400" "m = 12" "d = 31"
      using assms unf 1 \<open>c = 0\<close> \<open>e = 0\<close> by (simp_all add: Y_def)
    have dby: "days_before_year (400 * a + 400) = 146097 * a + 145731"
      using dby_decomp [of 3 24 3 a] by (simp add: algebra_simps)
    have leap: "is_leap (400 * a + 400)"
      using leap_decomp [of 3 24 3 a] by (simp add: algebra_simps)
    have "n = 146097 * a + 146096" using n r1 1 \<open>r2 = 0\<close> by simp
    then show ?thesis
      using ymd dby leap n0
      by (simp add: ymd2ord_def days_before_month_def days_in_month_def
            DAYS_BEFORE_MONTH_def DAYS_IN_MONTH_def)
  next
    case 2
    with r3 r2(3) have "r4 = 0" "r3 = 1460" by linarith+
    with r2 r1(3) c have c23: "c \<le> 23" by linarith
    have ymd: "y = 400 * a + 100 * b + 4 * c + 4" "m = 12" "d = 31"
      using assms unf 2 by (simp_all add: Y_def)
    have dby: "days_before_year (400 * a + 100 * b + 4 * c + 4)
                      = 146097 * a + 36524 * b + 1461 * c + 1095"
      using dby_decomp [of 3 c b a] b(1) 2(1) c by (simp add: algebra_simps)
    have leap: "is_leap (400 * a + 100 * b + 4 * c + 4)"
      using leap_decomp [of 3 c b a] b(1) 2(1) c c23 by (simp add: algebra_simps)
    have "n = 146097 * a + 36524 * b + 1461 * c + 1460"
      using n r1 r2 \<open>r3 = 1460\<close> by simp
    then show ?thesis
      using ymd dby leap n0
      by (simp add: ymd2ord_def days_before_month_def days_in_month_def
            DAYS_BEFORE_MONTH_def DAYS_IN_MONTH_def)
  next
    case 3
    define lp where "lp \<longleftrightarrow> e = 3 \<and> (c \<noteq> 24 \<or> b = 3)"
    obtain mo da where md: "ord2md lp r4 = (mo, da)" by (cases "ord2md lp r4")
    have ymd: "y = Y" "m = mo" "d = da"
      using assms unf 3 md by (auto simp: lp_def)
    have leap: "is_leap Y \<longleftrightarrow> lp"
      unfolding Y_def lp_def using leap_decomp [of e c b a] e(1) 3 c b(1) by simp
    have dby: "days_before_year Y = 146097 * a + 36524 * b + 1461 * c + 365 * e"
      unfolding Y_def using dby_decomp [of e c b a] e(1) 3 c b(1) by simp
    have "r4 \<le> 364" using r3 by simp
    from ord2md_correct [OF r3(2) this md]
    have mdc: "1 \<le> mo" "mo \<le> 12" "1 \<le> da"
      "da \<le> (if mo = 2 \<and> lp then 29 else DAYS_IN_MONTH ! nat mo)"
      "DAYS_BEFORE_MONTH ! nat mo + (if 2 < mo \<and> lp then 1 else 0) + da = r4 + 1"
      by simp_all
    have "n = 146097 * a + 36524 * b + 1461 * c + 365 * e + r4"
      using n r1 r2 r3 by simp
    then have "ymd2ord Y mo da = n0"
      using dby mdc(5) n0 leap by (simp add: ymd2ord_def days_before_month_def)
    moreover have "da \<le> days_in_month Y mo"
      using mdc(4) leap by (simp add: days_in_month_def)
    ultimately show ?thesis using ymd mdc(1-3) by simp
  qed
qed


lemma add_days_props:
  assumes "add_days d k = Inr d'"
  shows "toordinal d' = toordinal d + k"
    and "1 \<le> dt_month d' \<and> dt_month d' \<le> 12 \<and> 1 \<le> dt_day d'
         \<and> dt_day d' \<le> days_in_month (dt_year d') (dt_month d')"
    and "dt_tod d' = dt_tod d"
proof -
  obtain y m dd where o: "ord2ymd (toordinal d + k) = (y, m, dd)"
    by (cases "ord2ymd (toordinal d + k)") auto
  from assms o have d': "d' = \<lparr> dt_year = y, dt_month = m, dt_day = dd, dt_tod = dt_tod d \<rparr>"
    by (auto simp: add_days_def Let_def split: if_splits)
  from ord2ymd_correct [OF o] d'
  show "toordinal d' = toordinal d + k"
    and "1 \<le> dt_month d' \<and> dt_month d' \<le> 12 \<and> 1 \<le> dt_day d'
         \<and> dt_day d' \<le> days_in_month (dt_year d') (dt_month d')"
    and "dt_tod d' = dt_tod d"
    by (simp_all add: toordinal_def)
qed

lemma dt_le_of_ordinals:
  assumes a: "1 \<le> dt_month a \<and> dt_month a \<le> 12 \<and> 1 \<le> dt_day a
                \<and> dt_day a \<le> days_in_month (dt_year a) (dt_month a)"
    and b: "1 \<le> dt_month b \<and> dt_month b \<le> 12 \<and> 1 \<le> dt_day b
                \<and> dt_day b \<le> days_in_month (dt_year b) (dt_month b)"
    and tod: "dt_tod a = dt_tod b"
    and le: "toordinal a \<le> toordinal b"
  shows "dt_le a b"
proof (rule ccontr)
  assume n: "\<not> dt_le a b"
  have "a \<noteq> b" using n by (auto simp: dt_le_def)
  have ne: "dt_year a \<noteq> dt_year b \<or> dt_month a \<noteq> dt_month b \<or> dt_day a \<noteq> dt_day b"
  proof (rule ccontr)
    assume "\<not> (dt_year a \<noteq> dt_year b \<or> dt_month a \<noteq> dt_month b \<or> dt_day a \<noteq> dt_day b)"
    then have "dt_year a = dt_year b" "dt_month a = dt_month b" "dt_day a = dt_day b"
      by simp_all
    with tod have "a = b" by (intro datetime.equality) simp_all
    with \<open>a \<noteq> b\<close> show False by simp
  qed
  have nl: "\<not> dt_less a b" using n by (auto simp: dt_le_def)
  have "dt_year b < dt_year a
      \<or> (dt_year b = dt_year a \<and> (dt_month b < dt_month a
            \<or> (dt_month b = dt_month a \<and> dt_day b < dt_day a)))"
    using nl ne unfolding dt_less_def by auto
  then have "ymd2ord (dt_year b) (dt_month b) (dt_day b)
               < ymd2ord (dt_year a) (dt_month a) (dt_day a)"
    using a b by (intro ymd2ord_strict) simp_all
  then have "toordinal b < toordinal a" by (simp add: toordinal_def)
  with le show False by simp
qed

lemma replace_year_valid:
  assumes "replace_year d y = Some d'"
  shows "valid_date (dt_year d') (dt_month d') (dt_day d')" and "dt_year d' = y"
    and "dt_tod d' = dt_tod d"
  using assms by (auto simp: replace_year_def split: if_splits)

lemma parse_event_date_valid:
  assumes "parse_event_date now names s = Some ev"
  shows "valid_date (dt_year ev) (dt_month ev) (dt_day ev)"
    and "dt_year ev = dt_year now \<or> dt_year ev = dt_year now + 1"
proof -
  from assms obtain e0 e1 where
    e1: "replace_year e0 (dt_year now) = Some e1"
    and ev: "(if dt_less e1 now then replace_year e1 (dt_year now + 1) else Some e1) = Some ev"
    by (auto simp: parse_event_date_def split: option.splits)
  show "valid_date (dt_year ev) (dt_month ev) (dt_day ev)"
    using replace_year_valid(1) [OF e1] ev replace_year_valid(1) [of e1 "dt_year now + 1" ev]
    by (auto split: if_splits)
  show "dt_year ev = dt_year now \<or> dt_year ev = dt_year now + 1"
    using replace_year_valid(2) [OF e1] ev replace_year_valid(2) [of e1 "dt_year now + 1" ev]
    by (auto split: if_splits)
qed

lemma event_date_of_valid:
  assumes "event_date_of now s = Some ev"
  shows "valid_date (dt_year ev) (dt_month ev) (dt_day ev)"
    and "dt_year ev = dt_year now \<or> dt_year ev = dt_year now + 1"
  using assms parse_event_date_valid [of now month_names_B s ev]
    parse_event_date_valid [of now month_names_b s ev]
  by (auto simp: event_date_of_def split: option.splits)

lemma dby_2: "days_before_year 2 = 365"
  by (simp add: days_before_year_def)

lemma dby_9999: "days_before_year 9999 = 3651694"
  by (simp add: days_before_year_def)

lemma dby_le: "y \<le> y' \<Longrightarrow> days_before_year y \<le> days_before_year y'"
proof (cases "y = y'")
  case True
  then show ?thesis by simp
next
  case False
  assume "y \<le> y'"
  with False have "y < y'" by simp
  from dby_mono [OF this] show ?thesis by (cases "is_leap y") simp_all
qed

lemma toordinal_bounds:
  assumes "valid_date (dt_year d) (dt_month d) (dt_day d)"
    and "2 \<le> dt_year d" and "dt_year d \<le> 9998"
  shows "366 \<le> toordinal d" and "toordinal d \<le> 3651694"
proof -
  from assms(1) have v: "1 \<le> dt_month d" "dt_month d \<le> 12" "1 \<le> dt_day d"
    "dt_day d \<le> days_in_month (dt_year d) (dt_month d)" by (simp_all add: valid_date_def)
  have "365 \<le> days_before_year (dt_year d)" using dby_le [OF assms(2)] dby_2 by simp
  with day_of_year_bounds(1) [OF v] show "366 \<le> toordinal d"
    by (simp add: toordinal_def ymd2ord_def)
  have "dt_year d < 9999" using assms(3) by simp
  from dby_mono [OF this] dby_9999 day_of_year_bounds(2) [OF v]
  show "toordinal d \<le> 3651694" by (simp add: toordinal_def ymd2ord_def)
qed

lemma add_days_succeeds:
  assumes "valid_date (dt_year d) (dt_month d) (dt_day d)"
    and "2 \<le> dt_year d" and "dt_year d \<le> 9998" and "- 365 \<le> k" and "k \<le> 365"
  shows "\<exists>d'. add_days d k = Inr d'"
  using toordinal_bounds [OF assms(1-3)] assms(4,5)
  by (auto simp: add_days_def Let_def split: prod.splits)

lemma PRICING_TIERS_Some:
  assumes "PRICING_TIERS t = Some pol"
  shows "window_days pol \<in> {7, 10, 14}"
  using assms by (auto simp: PRICING_TIERS_def split: if_splits)

lemma PRICING_TIERS_valid:
  assumes "t \<in> set valid_tiers"
  shows "\<exists>pol. PRICING_TIERS t = Some pol \<and> window_days pol \<in> {7, 10, 14}"
proof -
  from assms consider "t = ''MINOR''" | "t = ''MEDIUM''" | "t = ''MAJOR''" | "t = ''PEAK''"
    by (auto simp: valid_tiers_def)
  then show ?thesis
  proof cases
    case 1
    then show ?thesis by (simp add: PRICING_TIERS_def)
  next
    case 2
    then show ?thesis by (simp add: PRICING_TIERS_def)
  next
    case 3
    then show ?thesis by (simp add: PRICING_TIERS_def)
  next
    case 4
    then show ?thesis by (simp add: PRICING_TIERS_def)
  qed
qed

lemma calc_Some:
  assumes c: "calculate_pricing_window now s t = Inr (Some w)"
  shows "\<exists>ev st en wd. window_dates now s t = Inr (Some (ev, st, en, wd))
    \<and> w = \<lparr> w_event_date = strftime_Ymd ev, w_price_start = strftime_Ymd st,
                 w_price_end = strftime_Ymd en, w_window_days = wd \<rparr>"
proof (cases "window_dates now s t")
  case (Inl e)
  with c show ?thesis by (simp add: calculate_pricing_window_def)
next
  case (Inr r)
  show ?thesis
  proof (cases r)
    case None
    with Inr c show ?thesis by (simp add: calculate_pricing_window_def)
  next
    case (Some q)
    obtain ev st en wd where q: "q = (ev, st, en, wd)" by (cases q)
    with Some Inr c show ?thesis by (simp add: calculate_pricing_window_def)
  qed
qed

lemma window_dates_Some:
  assumes c: "window_dates now s t = Inr (Some (ev, st, en, wd))"
  shows "\<exists>pol. event_date_of now s = Some ev \<and> PRICING_TIERS t = Some pol
    \<and> add_days ev (- window_days pol) = Inr st \<and> add_days ev 2 = Inr en
    \<and> wd = window_days pol"
proof (cases "event_date_of now s")
  case None
  with c show ?thesis by (simp add: window_dates_def)
next
  case (Some e)
  show ?thesis
  proof (cases "PRICING_TIERS t")
    case None
    with Some c show ?thesis by (simp add: window_dates_def)
  next
    case pol: (Some pol)
    show ?thesis
    proof (cases "add_days e (- window_days pol)")
      case (Inl x)
      with Some pol c show ?thesis by (simp add: window_dates_def)
    next
      case st: (Inr st')
      show ?thesis
      proof (cases "add_days e 2")
        case (Inl x)
        with Some pol st c show ?thesis by (simp add: window_dates_def)
      next
        case (Inr en')
        with Some pol st c show ?thesis by (simp add: window_dates_def)
      qed
    qed
  qed
qed

lemma ex_event_date:
  "event_date_of example_now ''July 20''
     = Some \<lparr> dt_year = 2026, dt_month = 7, dt_day = 20, dt_tod = 0 \<rparr>"
proof -
  have s1: "strptime month_names_B ''July 20''
              = Some \<lparr> dt_year = 1900, dt_month = 7, dt_day = 20, dt_tod = 0 \<rparr>"
    by code_simp
  have s2: "replace_year \<lparr> dt_year = 1900, dt_month = 7, dt_day = 20, dt_tod = 0 \<rparr> 2025
              = Some \<lparr> dt_year = 2025, dt_month = 7, dt_day = 20, dt_tod = 0 \<rparr>"
    by code_simp
  have s3: "dt_less \<lparr> dt_year = 2025, dt_month = 7, dt_day = 20, dt_tod = 0 \<rparr> example_now"
    by (simp add: dt_less_def example_now_def)
  have s4: "replace_year \<lparr> dt_year = 2025, dt_month = 7, dt_day = 20, dt_tod = 0 \<rparr> 2026
              = Some \<lparr> dt_year = 2026, dt_month = 7, dt_day = 20, dt_tod = 0 \<rparr>"
    by code_simp
  have y: "dt_year example_now = 2025" by (simp add: example_now_def)
  have "parse_event_date example_now month_names_B ''July 20''
          = Some \<lparr> dt_year = 2026, dt_month = 7, dt_day = 20, dt_tod = 0 \<rparr>"
    unfolding parse_event_date_def s1 y by (simp add: s2 s3 s4)
  then show ?thesis by (simp add: event_date_of_def)
qed

lemma ex_window:
  "calculate_pricing_window example_now ''July 20'' ''PEAK''
     = Inr (Some \<lparr> w_event_date = ''2026-07-20'', w_price_start = ''2026-07-06'',
                    w_price_end = ''2026-07-22'', w_window_days = 14 \<rparr>)"
proof -
  let ?ev = "\<lparr> dt_year = 2026, dt_month = 7, dt_day = 20, dt_tod = 0 \<rparr>"
  have p: "PRICING_TIERS ''PEAK'' = Some \<lparr> increase = 35, window_days = 14,
      description = ''Once-in-lifetime events, major auctions, 50th anniversaries'' \<rparr>"
    by (simp add: PRICING_TIERS_def)
  have a1: "add_days ?ev (- 14)
              = Inr \<lparr> dt_year = 2026, dt_month = 7, dt_day = 6, dt_tod = 0 \<rparr>"
    by code_simp
  have a2: "add_days ?ev 2 = Inr \<lparr> dt_year = 2026, dt_month = 7, dt_day = 22, dt_tod = 0 \<rparr>"
    by code_simp
  have f1: "strftime_Ymd ?ev = ''2026-07-20''" by code_simp
  have f2: "strftime_Ymd \<lparr> dt_year = 2026, dt_month = 7, dt_day = 6, dt_tod = 0 \<rparr>
              = ''2026-07-06''" by code_simp
  have f3: "strftime_Ymd \<lparr> dt_year = 2026, dt_month = 7, dt_day = 22, dt_tod = 0 \<rparr>
              = ''2026-07-22''" by code_simp
  have "window_dates example_now ''July 20'' ''PEAK''
          = Inr (Some (?ev, \<lparr> dt_year = 2026, dt_month = 7, dt_day = 6, dt_tod = 0 \<rparr>,
                       \<lparr> dt_year = 2026, dt_month = 7, dt_day = 22, dt_tod = 0 \<rparr>, 14))"
    unfolding window_dates_def ex_event_date p by (simp add: a1 a2)
  then show ?thesis
    unfolding calculate_pricing_window_def by (simp add: f1 f2 f3)
qed

section \<open>The claim about the window calculator\<close>

text \<open>
  Claim C4. Whenever \<open>calculate_pricing_window\<close> returns a window, its three dates are
  the formatted event date, the event date minus the window days of the tier and the event
  date plus 2 days (as calendar dates: the ordinals differ by exactly these numbers), and
  start, event and end are in this order as datetimes. The function does return a window
  for every event date string that parses and each of the four tiers, for a reference year
  from 2 to 9997. The witness: "July 20", PEAK and the reference date 2025-08-01 give the
  event date 2026-07-20, the start 2026-07-06 and the end 2026-07-22.
\<close>

theorem pricing_window_correct:
  "(calculate_pricing_window now s t = Inr (Some w) \<longrightarrow>
      (\<exists>ev st en pol.
          event_date_of now s = Some ev \<and> PRICING_TIERS t = Some pol
        \<and> add_days ev (- window_days pol) = Inr st \<and> add_days ev 2 = Inr en
        \<and> w = \<lparr> w_event_date = strftime_Ymd ev, w_price_start = strftime_Ymd st,
                 w_price_end = strftime_Ymd en, w_window_days = window_days pol \<rparr>
        \<and> toordinal st = toordinal ev - window_days pol
        \<and> toordinal en = toordinal ev + 2
        \<and> dt_le st ev \<and> dt_le ev en))
   \<and> (event_date_of now s = Some ev' \<and> t \<in> set valid_tiers
        \<and> 2 \<le> dt_year now \<and> dt_year now \<le> 9997 \<longrightarrow>
        (\<exists>w'. calculate_pricing_window now s t = Inr (Some w')))"
proof (intro conjI impI)
  assume c: "calculate_pricing_window now s t = Inr (Some w)"
  from calc_Some [OF c] obtain ev st en wd where
    wdt: "window_dates now s t = Inr (Some (ev, st, en, wd))"
    and w: "w = \<lparr> w_event_date = strftime_Ymd ev, w_price_start = strftime_Ymd st,
                 w_price_end = strftime_Ymd en, w_window_days = wd \<rparr>"
    by blast
  from window_dates_Some [OF wdt] obtain pol where
    ev: "event_date_of now s = Some ev" and pol: "PRICING_TIERS t = Some pol"
    and st: "add_days ev (- window_days pol) = Inr st" and en: "add_days ev 2 = Inr en"
    and wd: "wd = window_days pol"
    by blast
  from event_date_of_valid(1) [OF ev]
  have v: "1 \<le> dt_month ev \<and> dt_month ev \<le> 12 \<and> 1 \<le> dt_day ev
             \<and> dt_day ev \<le> days_in_month (dt_year ev) (dt_month ev)"
    by (simp add: valid_date_def)
  note ps = add_days_props [OF st] and pe = add_days_props [OF en]
  have 1: "toordinal st = toordinal ev - window_days pol" using ps(1) by simp
  have 2: "toordinal en = toordinal ev + 2" using pe(1) by simp
  have 3: "dt_le st ev"
  proof -
    from PRICING_TIERS_Some [OF pol] have "0 \<le> window_days pol" by auto
    with 1 have "toordinal st \<le> toordinal ev" by simp
    with ps(2) v ps(3) show "dt_le st ev" by (rule dt_le_of_ordinals)
  qed
  have "toordinal ev \<le> toordinal en" using 2 by simp
  with v pe(2) pe(3) [symmetric] have 4: "dt_le ev en" by (rule dt_le_of_ordinals)
  from ev pol st en w wd 1 2 3 4
  show "\<exists>ev st en pol.
          event_date_of now s = Some ev \<and> PRICING_TIERS t = Some pol
        \<and> add_days ev (- window_days pol) = Inr st \<and> add_days ev 2 = Inr en
        \<and> w = \<lparr> w_event_date = strftime_Ymd ev, w_price_start = strftime_Ymd st,
                 w_price_end = strftime_Ymd en, w_window_days = window_days pol \<rparr>
        \<and> toordinal st = toordinal ev - window_days pol
        \<and> toordinal en = toordinal ev + 2
        \<and> dt_le st ev \<and> dt_le ev en"
    by (intro exI [of _ ev] exI [of _ st] exI [of _ en] exI [of _ pol]) simp
next
  assume a: "event_date_of now s = Some ev' \<and> t \<in> set valid_tiers
        \<and> 2 \<le> dt_year now \<and> dt_year now \<le> 9997"
  then have ev: "event_date_of now s = Some ev'" and t: "t \<in> set valid_tiers"
    and yn: "2 \<le> dt_year now" "dt_year now \<le> 9997" by simp_all
  from event_date_of_valid [OF ev]
  have v: "valid_date (dt_year ev') (dt_month ev') (dt_day ev')"
    and "dt_year ev' = dt_year now \<or> dt_year ev' = dt_year now + 1" by simp_all
  with yn have y: "2 \<le> dt_year ev'" "dt_year ev' \<le> 9998" by linarith+
  from PRICING_TIERS_valid [OF t] obtain pol where
    pol: "PRICING_TIERS t = Some pol" "window_days pol \<in> {7, 10, 14}" by blast
  from pol(2) have "- 365 \<le> - window_days pol" "- window_days pol \<le> 365" by auto
  from add_days_succeeds [OF v y this]
  obtain st where st: "add_days ev' (- window_days pol) = Inr st" by blast
  have "- 365 \<le> (2::int)" "(2::int) \<le> 365" by simp_all
  from add_days_succeeds [OF v y this]
  obtain en where en: "add_days ev' 2 = Inr en" by blast
  show "\<exists>w'. calculate_pricing_window now s t = Inr (Some w')"
    using ev pol(1) st en by (simp add: calculate_pricing_window_def window_dates_def)
qed

theorem pricing_window_correct_witness:
  "calculate_pricing_window example_now ''July 20'' ''PEAK''
     = Inr (Some \<lparr> w_event_date = ''2026-07-20'', w_price_start = ''2026-07-06'',
                    w_price_end = ''2026-07-22'', w_window_days = 14 \<rparr>)
   \<and> (\<exists>ev st en.
         event_date_of example_now ''July 20'' = Some ev
       \<and> strftime_Ymd ev = ''2026-07-20'' \<and> strftime_Ymd st = ''2026-07-06''
       \<and> strftime_Ymd en = ''2026-07-22''
       \<and> toordinal st = toordinal ev - 14 \<and> toordinal en = toordinal ev + 2
       \<and> dt_le st ev \<and> dt_le ev en)"
proof -
  let ?w = "\<lparr> w_event_date = ''2026-07-20'', w_price_start = ''2026-07-06'',
              w_price_end = ''2026-07-22'', w_window_days = 14 \<rparr>"
  note c = ex_window
  have p: "PRICING_TIERS ''PEAK'' = Some \<lparr> increase = 35, window_days = 14,
      description = ''Once-in-lifetime events, major auctions, 50th anniversaries'' \<rparr>"
    by (simp add: PRICING_TIERS_def)
  from pricing_window_correct [of example_now "''July 20''" "''PEAK''" ?w] c
  obtain ev st en pol where
    f: "event_date_of example_now ''July 20'' = Some ev" "PRICING_TIERS ''PEAK'' = Some pol"
       "?w = \<lparr> w_event_date = strftime_Ymd ev, w_price_start = strftime_Ymd st,
                 w_price_end = strftime_Ymd en, w_window_days = window_days pol \<rparr>"
       "toordinal st = toordinal ev - window_days pol"
       "toordinal en = toordinal ev + 2"
       "dt_le st ev" "dt_le ev en"
    by blast
  from f(2) p have "pol = \<lparr> increase = 35, window_days = 14,
      description = ''Once-in-lifetime events, major auctions, 50th anniversaries'' \<rparr>"
    by simp
  then have wd: "window_days pol = 14" by simp
  from f(3) have s: "strftime_Ymd ev = ''2026-07-20''" "strftime_Ymd st = ''2026-07-06''"
    "strftime_Ymd en = ''2026-07-22''" by simp_all
  have "event_date_of example_now ''July 20'' = Some ev
       \<and> strftime_Ymd ev = ''2026-07-20'' \<and> strftime_Ymd st = ''2026-07-06''
       \<and> strftime_Ymd en = ''2026-07-22''
       \<and> toordinal st = toordinal ev - 14 \<and> toordinal en = toordinal ev + 2
       \<and> dt_le st ev \<and> dt_le ev en"
    using f(1,4,5,6,7) wd s by simp
  then have "\<exists>ev st en.
         event_date_of example_now ''July 20'' = Some ev
       \<and> strftime_Ymd ev = ''2026-07-20'' \<and> strftime_Ymd st = ''2026-07-06''
       \<and> strftime_Ymd en = ''2026-07-22''
       \<and> toordinal st = toordinal ev - 14 \<and> toordinal en = toordinal ev + 2
       \<and> dt_le st ev \<and> dt_le ev en"
    by blast
  with c show ?thesis by simp
qed

end
